theory Spec2Isabelle
  imports Main "HOL-Library.Word" "HOL-Library.AList"
begin

unbundle bit_operations_syntax

section \<open>JavaScript values\<close>

text \<open>
  The values the settings engine handles are JSON data: what the form controls yield
  (strings, booleans, \<open>null\<close>), what \<open>JSON.parse\<close> returns and what \<open>JSON.stringify\<close>
  accepts. Numbers are the integers; \<open>undefined\<close> is not a JSON value and is modelled,
  where the source can meet it, by an \<open>option\<close>. An object is an association list in
  property order, an array a list. Property names and texts are strings of 8-bit
  characters; only the content hash looks at character codes, and it takes a string of
  16-bit units. The names that \<open>Object.prototype\<close> defines (\<open>constructor\<close>, \<open>toString\<close>,
  \<open>__proto__\<close> and the like) are outside the model: on them an object made by \<open>{}\<close> is
  not a map, and no form control, style field or section of the application has such a name.
\<close>

datatype prim = PNull | PBool bool | PNum int | PStr string

datatype jsval = Prim prim | Arr "jsval list" | Obj "(string \<times> jsval) list"

type_synonym obj = "(string \<times> jsval) list"

section \<open>storage.js: settings persistence and undo history\<close>

text \<open>
  \<open>localStorage\<close> holds texts under two keys, \<open>LS_KEY\<close> and \<open>LS_HISTORY_KEY\<close>. Every text
  written there is \<open>JSON.stringify\<close> of JSON data and every text read back goes through
  \<open>JSON.parse\<close>; \<open>JSON.stringify\<close> is injective on JSON data and \<open>JSON.parse\<close> inverts it,
  so a stored text is identified with the data it encodes: the test
  \<open>JSON.stringify(history[history.length - 1]) !== this_settings\<close> compares two snapshots.
  \<open>None\<close> is a key that was never written (\<open>getItem\<close> returns \<open>null\<close>).
\<close>

type_synonym snapshot = obj

record storage =
  ls_settings :: "snapshot option"
  ls_history :: "snapshot list option"

definition MAX_HISTORY :: nat where
  "MAX_HISTORY = 40"

definition empty_storage :: storage where
  "empty_storage = \<lparr>ls_settings = None, ls_history = None\<rparr>"

text \<open>\<open>JSON.parse(localStorage.getItem(LS_HISTORY_KEY)) || []\<close>\<close>

definition read_history :: "storage \<Rightarrow> snapshot list" where
  "read_history st = (case ls_history st of None \<Rightarrow> [] | Some h \<Rightarrow> h)"

text \<open>
  \<open>saveAllSettingsToLocalStorage\<close>, from the point where the form controls, the per-line
  styles and the image reference have been collected into \<open>data\<close>: the current snapshot is
  always written; the history is extended, trimmed to its last \<open>MAX_HISTORY\<close> entries and
  written only when it is empty or its last entry differs from \<open>data\<close>. The
  \<open>console.debug\<close> of the diff changes no state and is left out.
\<close>

definition saveAllSettingsToLocalStorage :: "snapshot \<Rightarrow> storage \<Rightarrow> storage" where
  "saveAllSettingsToLocalStorage data st =
     (let st1 = st\<lparr>ls_settings := Some data\<rparr>;
          history = read_history st1
      in if length history = 0 \<or> last history \<noteq> data then
           (let pushed = history @ [data];
                trimmed = (if length pushed > MAX_HISTORY
                           then drop (length pushed - MAX_HISTORY) pushed else pushed)
            in st1\<lparr>ls_history := Some trimmed\<rparr>)
         else st1)"

text \<open>
  \<open>undoSettings\<close>: returns at once when the history has fewer than two entries; otherwise
  pops the last entry and writes the shortened history and its new last entry as the
  current snapshot. \<open>restoreAllSettingsFromLocalStorage\<close>, which it then calls, fills the
  form from the current snapshot and writes nothing to \<open>localStorage\<close>.
\<close>

definition undoSettings :: "storage \<Rightarrow> storage" where
  "undoSettings st =
     (let history = read_history st
      in if length history < 2 then st
         else (let popped = butlast history;
                   prev = last popped
               in st\<lparr>ls_history := Some popped, ls_settings := Some prev\<rparr>))"

text \<open>\<open>updateUndoButton\<close>: the number shown in \<open>#undoCounter\<close>, \<open>Math.max(0, history.length - 1)\<close>.\<close>

definition undo_steps :: "storage \<Rightarrow> int" where
  "undo_steps st = max 0 (int (length (read_history st)) - 1)"

text \<open>Truthiness of a value, for \<open>||\<close>.\<close>

fun truthy :: "jsval \<Rightarrow> bool" where
  "truthy (Prim PNull) = False"
| "truthy (Prim (PBool b)) = b"
| "truthy (Prim (PNum n)) = (n \<noteq> 0)"
| "truthy (Prim (PStr s)) = (s \<noteq> [])"
| "truthy (Arr _) = True"
| "truthy (Obj _) = True"

text \<open>
  \<open>repoLoad\<close>, the part that touches \<open>localStorage\<close>: the record fetched from the repository
  gets \<open>fontSettingsPerLine\<close> set to \<open>data['text'] || '[]'\<close> and is written as the current
  snapshot. The history key is not written.
\<close>

definition repoLoad :: "snapshot \<Rightarrow> storage \<Rightarrow> storage" where
  "repoLoad data st =
     (let text = (case map_of data ''text'' of
                    None \<Rightarrow> Prim (PStr ''[]'')
                  | Some v \<Rightarrow> if truthy v then v else Prim (PStr ''[]''));
          data1 = AList.update ''fontSettingsPerLine'' text data
      in st\<lparr>ls_settings := Some data1\<rparr>)"

text \<open>A run of saves, in order.\<close>

definition save_all :: "snapshot list \<Rightarrow> storage \<Rightarrow> storage" where
  "save_all ds st = foldl (\<lambda>s d. saveAllSettingsToLocalStorage d s) st ds"

text \<open>
  The history invariant of the specification: adjacent entries differ, and a non-empty
  history ends with the current snapshot.
\<close>

definition history_inv :: "storage \<Rightarrow> bool" where
  "history_inv st =
     (distinct_adj (read_history st) \<and>
      (read_history st \<noteq> [] \<longrightarrow> ls_settings st = Some (last (read_history st))))"


section \<open>storage.js: content hash and image cache\<close>

text \<open>
  A JavaScript string is a sequence of 16-bit code units; \<open>charCodeAt(i)\<close> is the \<open>i\<close>-th
  unit as a number.
\<close>

type_synonym js_string = "16 word list"

definition FNV_OFFSET_BASIS :: nat where
  "FNV_OFFSET_BASIS = 14695981039346656037"

definition FNV_PRIME :: nat where
  "FNV_PRIME = 1099511628211"

text \<open>
  One round of the loop of \<open>generateHash\<close>, on the unbounded integers of \<open>BigInt\<close>:
  \<open>hash ^= BigInt(c); hash *= FNV_PRIME; hash &= (1n << 64n) - 1n\<close>.
\<close>

definition hash_round :: "nat \<Rightarrow> 16 word \<Rightarrow> nat" where
  "hash_round hash c = (((hash XOR unat c) * FNV_PRIME) AND (push_bit 64 1 - 1))"

definition hash_value :: "js_string \<Rightarrow> nat" where
  "hash_value string = foldl hash_round FNV_OFFSET_BASIS string"

text \<open>\<open>toString(36)\<close> of a non-negative \<open>BigInt\<close>: digits \<open>0\<close>-\<open>9\<close>, \<open>a\<close>-\<open>z\<close>, no leading zero.\<close>

definition digit36 :: "nat \<Rightarrow> char" where
  "digit36 d = ''0123456789abcdefghijklmnopqrstuvwxyz'' ! d"

function toString36 :: "nat \<Rightarrow> string" where
  "toString36 n = (if n < 36 then [digit36 n] else toString36 (n div 36) @ [digit36 (n mod 36)])"
  by pat_completeness auto
termination
  by (relation "measure (\<lambda>n. n)") auto

declare toString36.simps [simp del]

definition generateHash :: "js_string \<Rightarrow> string" where
  "generateHash string = toString36 (hash_value string)"

text \<open>
  What it is for a number to be prime, and modular exponentiation by repeated squaring,
  with which the primality of \<open>FNV_PRIME\<close> is checked.
\<close>

definition is_prime :: "nat \<Rightarrow> bool" where
  "is_prime p = (1 < p \<and> (\<forall>d. d dvd p \<longrightarrow> d = 1 \<or> d = p))"

definition sqmod :: "nat \<Rightarrow> nat \<Rightarrow> nat" where
  "sqmod h m = h * h mod m"

function powmod :: "nat \<Rightarrow> nat \<Rightarrow> nat \<Rightarrow> nat" where
  "powmod a e m =
     (if e = 0 then 1 mod m
      else if even e then sqmod (powmod a (e div 2) m) m
      else sqmod (powmod a (e div 2) m) m * a mod m)"
  by pat_completeness auto
termination
  by (relation "measure (\<lambda>(a, e, m). e)") auto

declare powmod.simps [simp del]

text \<open>
  The hash as the specification words it, for comparison: the accumulator is multiplied
  by the prime and then xored with the unit.
\<close>

definition spec_hash_round :: "nat \<Rightarrow> 16 word \<Rightarrow> nat" where
  "spec_hash_round hash c = (((hash * FNV_PRIME) XOR unat c) AND (push_bit 64 1 - 1))"

definition spec_generateHash :: "js_string \<Rightarrow> string" where
  "spec_generateHash string = toString36 (foldl spec_hash_round FNV_OFFSET_BASIS string)"

text \<open>Reading a base-36 text back, to state what \<open>toString36\<close> encodes.\<close>

definition value36 :: "char \<Rightarrow> nat" where
  "value36 c = (if of_char c < (58::nat) then of_char c - 48 else of_char c - 87)"

definition fromString36 :: "string \<Rightarrow> nat" where
  "fromString36 s = foldl (\<lambda>a c. a * 36 + value36 c) 0 s"

text \<open>
  The \<open>images\<close> object store of IndexedDB, keyed by hash. \<open>store.add\<close> inserts only:
  on a key that is present the request fails with \<open>ConstraintError\<close> and the store is
  unchanged. What the browser may do besides is an input: the database fails to open, or
  the request fails for another reason.
\<close>

record image_record =
  mime :: js_string
  b64 :: js_string

type_synonym image_db = "string \<rightharpoonup> image_record"

datatype idb_fault = OpenFails | RequestFails

text \<open>
  \<open>_saveImageToDB\<close>: the promise resolves to \<open>true\<close> when the record was added, to
  \<open>false\<close> on \<open>ConstraintError\<close>, and to \<open>null\<close> (here \<open>None\<close>) when anything else went
  wrong, through the final \<open>catch\<close>.
\<close>

definition saveImageToDB ::
  "idb_fault option \<Rightarrow> string \<Rightarrow> js_string \<Rightarrow> js_string \<Rightarrow> image_db \<Rightarrow> bool option \<times> image_db" where
  "saveImageToDB fault ident m b db =
     (case fault of
        Some _ \<Rightarrow> (None, db)
      | None \<Rightarrow>
          (case db ident of
             Some _ \<Rightarrow> (Some False, db)
           | None \<Rightarrow> (Some True, db(ident \<mapsto> \<lparr>mime = m, b64 = b\<rparr>))))"

text \<open>\<open>_getImageFromDB\<close>: the stored record, or \<open>null\<close> when it is missing or the read failed.\<close>

definition getImageFromDB :: "idb_fault option \<Rightarrow> string \<Rightarrow> image_db \<Rightarrow> image_record option" where
  "getImageFromDB fault ident db = (case fault of Some _ \<Rightarrow> None | None \<Rightarrow> db ident)"

text \<open>
  The image step of \<open>saveAllSettingsToLocalStorage\<close>: the key is the hash of the base64
  text, the record is offered to the store, and the key goes into the snapshot as
  \<open>image_ref\<close> whatever the store answered.
\<close>

definition save_image ::
  "idb_fault option \<Rightarrow> js_string \<Rightarrow> js_string \<Rightarrow> image_db \<Rightarrow> string \<times> bool option \<times> image_db" where
  "save_image fault m b db =
     (let imageHash = generateHash b in (imageHash, saveImageToDB fault imageHash m b db))"

section \<open>storage.js: diff utilities\<close>

text \<open>Decimal text of an index, as \<open>Object.entries\<close> names the elements of an array.\<close>

function show_nat :: "nat \<Rightarrow> string" where
  "show_nat n =
     (if n < 10 then [''0123456789'' ! n] else show_nat (n div 10) @ [''0123456789'' ! (n mod 10)])"
  by pat_completeness auto
termination
  by (relation "measure (\<lambda>n. n)") auto

declare show_nat.simps [simp del]

text \<open>\<open>JSON.parse\<close> is the platform's; \<open>None\<close> is a thrown \<open>SyntaxError\<close>.\<close>

type_synonym json_parse = "string \<Rightarrow> jsval option"

definition looks_json :: "string \<Rightarrow> bool" where
  "looks_json s =
     (s \<noteq> [] \<and> ((hd s = CHR ''{'' \<and> last s = CHR ''}'') \<or> (hd s = CHR ''['' \<and> last s = CHR '']'')))"

text \<open>The first statement of the loop body of \<open>dig\<close>: a string that looks like JSON is parsed,
  and kept as it is when parsing throws.\<close>

definition decode :: "json_parse \<Rightarrow> jsval \<Rightarrow> jsval" where
  "decode parse v =
     (case v of
        Prim (PStr s) \<Rightarrow>
          (if looks_json s then (case parse s of Some v' \<Rightarrow> v' | None \<Rightarrow> v) else v)
      | _ \<Rightarrow> v)"

text \<open>\<open>Object.entries\<close> of an array.\<close>

definition array_entries :: "jsval list \<Rightarrow> obj" where
  "array_entries xs = zip (map show_nat [0..<length xs]) xs"

text \<open>\<open>path.join('.')\<close>\<close>

fun join_dot :: "string list \<Rightarrow> string" where
  "join_dot [] = []"
| "join_dot [k] = k"
| "join_dot (k # ks) = k @ ''.'' @ join_dot ks"

type_synonym flat = "(string \<times> prim) list"

text \<open>
  \<open>dig\<close>, with the path and the result object passed along. It walks the entries in
  order; a value that is an object or an array after decoding is entered, any other value
  is stored under the dotted path. The recursion ends because a parsed text is smaller
  than the text; for an arbitrary \<open>parse\<close> it need not, and \<open>None\<close> is a run that does not
  return.
\<close>

partial_function (option) dig :: "json_parse \<Rightarrow> string list \<Rightarrow> obj \<Rightarrow> flat \<Rightarrow> flat option" where
  "dig parse path es object =
     (case es of
        [] \<Rightarrow> Some object
      | e # rest \<Rightarrow>
          (case decode parse (snd e) of
             Prim p \<Rightarrow> dig parse path rest (AList.update (join_dot (path @ [fst e])) p object)
           | Arr xs \<Rightarrow>
               Option.bind (dig parse (path @ [fst e]) (array_entries xs) object)
                 (\<lambda>object'. dig parse path rest object')
           | Obj ps \<Rightarrow>
               Option.bind (dig parse (path @ [fst e]) ps object)
                 (\<lambda>object'. dig parse path rest object')))"

text \<open>\<open>flattenObject\<close>; the argument \<open>None\<close> is \<open>undefined\<close>.\<close>

definition flattenObject :: "json_parse \<Rightarrow> obj option \<Rightarrow> flat option" where
  "flattenObject parse obj = (case obj of None \<Rightarrow> Some [] | Some es \<Rightarrow> dig parse [] es [])"

text \<open>
  An entry of \<open>changed\<close> is at first the value copied from \<open>after\<close> and then, for a key
  whose value differs, the object \<open>{from, to}\<close>; a property read that finds nothing gives
  \<open>undefined\<close>, here \<open>None\<close>.
\<close>

datatype change = Copied prim | FromTo "prim option" "prim option"

definition diff_key ::
  "flat \<Rightarrow> flat \<Rightarrow> flat \<times> (string \<times> change) list \<times> flat \<Rightarrow> string
     \<Rightarrow> flat \<times> (string \<times> change) list \<times> flat" where
  "diff_key before after acc key =
     (case acc of (added, changed, removed) \<Rightarrow>
        if map_of after key = map_of before key then
          (AList.delete key added, AList.delete key changed, AList.delete key removed)
        else if key \<in> fst ` set before then
          (AList.delete key added,
           AList.update key (FromTo (map_of before key) (map_of after key)) changed,
           AList.delete key removed)
        else (added, AList.delete key changed, AList.delete key removed))"

definition diffFlatten :: "flat \<Rightarrow> flat \<Rightarrow> flat \<times> (string \<times> change) list \<times> flat" where
  "diffFlatten before after =
     foldl (diff_key before after)
       (after, map (\<lambda>kv. (fst kv, Copied (snd kv))) after, before) (map fst after)"

definition compareObjects ::
  "json_parse \<Rightarrow> obj option \<Rightarrow> obj option \<Rightarrow> (flat \<times> (string \<times> change) list \<times> flat) option" where
  "compareObjects parse before after =
     (case flattenObject parse before of
        None \<Rightarrow> None
      | Some fb \<Rightarrow>
          (case flattenObject parse after of
             None \<Rightarrow> None
           | Some fa \<Rightarrow> Some (diffFlatten fb fa)))"

text \<open>
  A value without scalar leaves: after decoding it is an array or an object whose members
  are all such values.
\<close>

inductive hollow :: "json_parse \<Rightarrow> jsval \<Rightarrow> bool" for parse :: json_parse where
  hollow_Arr: "decode parse v = Arr xs \<Longrightarrow> (\<forall>x\<in>set xs. hollow parse x) \<Longrightarrow> hollow parse v"
| hollow_Obj: "decode parse v = Obj ps \<Longrightarrow> (\<forall>p\<in>set ps. hollow parse (snd p)) \<Longrightarrow> hollow parse v"

text \<open>
  A value on which \<open>dig\<close> returns: decoding reaches scalars after finitely many steps.
\<close>

inductive settles :: "json_parse \<Rightarrow> jsval \<Rightarrow> bool" for parse :: json_parse where
  settles_Prim: "decode parse v = Prim p \<Longrightarrow> settles parse v"
| settles_Arr: "decode parse v = Arr xs \<Longrightarrow> (\<forall>x\<in>set xs. settles parse x) \<Longrightarrow> settles parse v"
| settles_Obj: "decode parse v = Obj ps \<Longrightarrow> (\<forall>p\<in>set ps. settles parse (snd p)) \<Longrightarrow> settles parse v"

text \<open>
  A stand-in for \<open>JSON.parse\<close> in examples: it reads the two texts \<open>{}\<close> and \<open>[]\<close> and
  throws on every other.
\<close>

definition parse_empty_only :: json_parse where
  "parse_empty_only s =
     (if s = ''{}'' then Some (Obj []) else if s = ''[]'' then Some (Arr []) else None)"

section \<open>font-settings.js: per-line font settings\<close>

text \<open>
  A slot of \<open>fontSettingsPerLine\<close> is an object of scalar fields. The form controls the
  function reads are its input: \<open>None\<close> is \<open>undefined\<close> (no option selected, no radio
  checked); \<open>lineSelect\<close> is the value of the line selector, \<open>null\<close> or the text of an
  option's value.
\<close>

type_synonym style = "(string \<times> prim) list"

record controls =
  font :: "string option"
  font_size :: string
  font_inverted :: bool
  font_checkbox :: bool
  font_align :: "string option"
  line_spacing :: "string option"
  print_color :: "string option"
  print_type :: "string option"
  label_text :: "string option"
  lineSelect :: prim
  sync_font_settings :: bool

definition DEFAULT_FONT :: string where
  "DEFAULT_FONT = ''Droid Serif,Regular''"

definition SHIPPING_LINE_NAMES :: "string list" where
  "SHIPPING_LINE_NAMES = [''Sender section'', ''Recipient section'']"

text \<open>\<open>v || d\<close> for a string or \<open>undefined\<close>: the empty string is falsy too.\<close>

definition or_default :: "string option \<Rightarrow> string \<Rightarrow> string" where
  "or_default v d = (case v of None \<Rightarrow> d | Some s \<Rightarrow> if s = [] then d else s)"

definition currentFont :: "controls \<Rightarrow> style" where
  "currentFont ui =
     [(''font'', PStr (or_default (font ui) DEFAULT_FONT)),
      (''size'', PStr (font_size ui)),
      (''inverted'', PBool (font_inverted ui)),
      (''checkbox'', PBool (font_checkbox ui)),
      (''align'', PStr (or_default (font_align ui) ''center'')),
      (''line_spacing'', PStr (or_default (line_spacing ui) ''100'')),
      (''color'', PStr (or_default (print_color ui) ''black''))]"

text \<open>\<open>text.split(/\r?\n/)\<close>: a line feed, with a carriage return right before it if there
  is one, ends a line; the result is never empty.\<close>

fun split_lines :: "string \<Rightarrow> string list" where
  "split_lines [] = [[]]"
| "split_lines (c # cs) =
     (if c = CHR 0x0A then [] # split_lines cs
      else if c = CHR 0x0D \<and> cs \<noteq> [] \<and> hd cs = CHR 0x0A then [] # split_lines (tl cs)
      else (case split_lines cs of [] \<Rightarrow> [[c]] | l # ls \<Rightarrow> (c # l) # ls))"

text \<open>Reading an array element: \<open>undefined\<close> outside the array.\<close>

definition element :: "style list \<Rightarrow> int \<Rightarrow> style option" where
  "element fs i = (if 0 \<le> i \<and> nat i < length fs then Some (fs ! nat i) else None)"

text \<open>\<open>Object.assign({}, x)\<close>: a copy of the object, the empty object for \<open>undefined\<close>.\<close>

definition assign_copy :: "style option \<Rightarrow> style" where
  "assign_copy x = (case x of None \<Rightarrow> [] | Some s \<Rightarrow> s)"

text \<open>
  The \<open>for\<close> loop that adds slots, from index \<open>i\<close> up to the number of lines. The test
  \<open>i === selectedLine\<close> compares the number \<open>i\<close> with the selector's value without
  conversion.
\<close>

function add_slots :: "prim \<Rightarrow> style \<Rightarrow> nat \<Rightarrow> nat \<Rightarrow> style list \<Rightarrow> style list" where
  "add_slots selectedLine cf n i fs =
     (if i < n then
        add_slots selectedLine cf n (Suc i)
          (fs @ [if PNum (int i) = selectedLine \<or> selectedLine = PNull
                 then assign_copy (Some cf)
                 else assign_copy (element fs (int i - 1))])
      else fs)"
  by pat_completeness auto
termination
  by (relation "measure (\<lambda>(selectedLine, cf, n, i, fs). n - i)") auto

declare add_slots.simps [simp del]

text \<open>\<open>while (fontSettingsPerLine.length > lines.length) fontSettingsPerLine.pop()\<close>\<close>

function pop_slots :: "nat \<Rightarrow> style list \<Rightarrow> style list" where
  "pop_slots n fs = (if length fs > n then pop_slots n (butlast fs) else fs)"
  by pat_completeness auto
termination
  by (relation "measure (\<lambda>(n, fs). length fs)") auto

declare pop_slots.simps [simp del]

text \<open>Decimal digits read as a number; \<open>None\<close> for the empty text and for any other character.\<close>

definition digit_value :: "char \<Rightarrow> nat option" where
  "digit_value c =
     (if (48::nat) \<le> of_char c \<and> of_char c \<le> (57::nat) then Some (of_char c - 48) else None)"

fun read_nat :: "nat \<Rightarrow> string \<Rightarrow> nat option" where
  "read_nat a [] = Some a"
| "read_nat a (c # cs) =
     (case digit_value c of None \<Rightarrow> None | Some d \<Rightarrow> read_nat (a * 10 + d) cs)"

text \<open>
  The array index a property key names: a number that is a non-negative integer, or a
  string that is the canonical decimal text of one. Any other key names no element.
\<close>

definition array_index :: "prim \<Rightarrow> nat option" where
  "array_index key =
     (case key of
        PNum n \<Rightarrow> if 0 \<le> n then Some (nat n) else None
      | PStr s \<Rightarrow>
          (if s = [] then None
           else (case read_nat 0 s of
                   None \<Rightarrow> None
                 | Some n \<Rightarrow> if show_nat n = s then Some n else None))
      | _ \<Rightarrow> None)"

text \<open>
  \<open>if (fontSettingsPerLine[selectedLine]) fontSettingsPerLine[selectedLine] = ...\<close>: a slot
  is an object and so truthy; a key that names no element of the array reads \<open>undefined\<close>
  (the selector's values are \<open>null\<close> and the indices this function wrote as option
  values, never the name of an array method).
\<close>

definition replace_selected :: "prim \<Rightarrow> style \<Rightarrow> style list \<Rightarrow> style list" where
  "replace_selected selectedLine cf fs =
     (case array_index selectedLine of
        None \<Rightarrow> fs
      | Some k \<Rightarrow> if k < length fs then fs[k := assign_copy (Some cf)] else fs)"

text \<open>
  \<open>fontSettingsPerLine[i]['text'] = texts[i]\<close> for every index of \<open>texts\<close>, from \<open>i\<close> on;
  writing a property of a missing slot throws a \<open>TypeError\<close>, here \<open>None\<close>.
\<close>

fun set_texts :: "nat \<Rightarrow> string list \<Rightarrow> style list \<Rightarrow> style list option" where
  "set_texts i [] fs = Some fs"
| "set_texts i (t # ts) fs =
     (if i < length fs
      then set_texts (Suc i) ts (fs[i := AList.update ''text'' (PStr t) (fs ! i)])
      else None)"

text \<open>
  The \<open>while\<close> loop of \<open>_setShippingFontSettings\<close> that fills the array up to the number of
  section names: each pass pushes a copy of the last slot, or of the current style when
  there is none.
\<close>

function fill_sections :: "style \<Rightarrow> style list \<Rightarrow> style list" where
  "fill_sections cf fs =
     (if length fs < length SHIPPING_LINE_NAMES then
        fill_sections cf
          (fs @ [assign_copy (if length fs > 0 then element fs (int (length fs) - 1)
                              else Some (assign_copy (Some cf)))])
      else fs)"
  by pat_completeness auto
termination
  by (relation "measure (\<lambda>(cf, fs). length SHIPPING_LINE_NAMES - length fs)") auto

declare fill_sections.simps [simp del]

text \<open>
  \<open>fontSettingsPerLine[selectedLine] = ...\<close> in \<open>_setShippingFontSettings\<close>: the index is
  below the length of the array; a negative one names no element and the write leaves
  the elements as they are.
\<close>

definition set_slot :: "int \<Rightarrow> style \<Rightarrow> style list \<Rightarrow> style list" where
  "set_slot i s fs = (if 0 \<le> i \<and> nat i < length fs then fs[nat i := s] else fs)"

text \<open>\<open>parseInt\<close> is the platform's; \<open>None\<close> is \<open>NaN\<close>.\<close>

type_synonym parse_int = "prim \<Rightarrow> int option"

text \<open>\<open>parseInt(lineSelect.val()) || 0\<close>, reset to 0 when it is not below the number of
  sections.\<close>

definition shipping_selected :: "parse_int \<Rightarrow> controls \<Rightarrow> int" where
  "shipping_selected parseInt ui =
     (let selectedLine = (case parseInt (lineSelect ui) of None \<Rightarrow> 0 | Some n \<Rightarrow> n)
      in if selectedLine \<ge> int (length SHIPPING_LINE_NAMES) then 0 else selectedLine)"

definition setShippingFontSettings ::
  "parse_int \<Rightarrow> controls \<Rightarrow> style \<Rightarrow> style list \<Rightarrow> style list option" where
  "setShippingFontSettings parseInt ui cf fs =
     (let selectedLine = shipping_selected parseInt ui;
          filled = fill_sections cf fs;
          sliced = take (length SHIPPING_LINE_NAMES) filled;
          styled = (if sync_font_settings ui
                    then foldl (\<lambda>a idx. set_slot (int idx) (assign_copy (Some cf)) a) sliced
                           [0..<length SHIPPING_LINE_NAMES]
                    else set_slot selectedLine (assign_copy (Some cf)) sliced)
      in set_texts 0 SHIPPING_LINE_NAMES styled)"

text \<open>
  \<open>setFontSettingsPerLine\<close>: from the controls and the stored array to the new array. The
  selector's options are rebuilt on the way, which changes no slot. \<open>None\<close> is a thrown
  \<open>TypeError\<close>.
\<close>

definition setFontSettingsPerLine ::
  "parse_int \<Rightarrow> controls \<Rightarrow> style list \<Rightarrow> style list option" where
  "setFontSettingsPerLine parseInt ui fs =
     (let cf = currentFont ui in
      if print_type ui = Some ''shipping'' then setShippingFontSettings parseInt ui cf fs
      else
        (let text = or_default (label_text ui) [];
             lines0 = split_lines text;
             lines = (if length lines0 = 0 then [[]] else lines0);
             selectedLine = lineSelect ui
         in if sync_font_settings ui then
              Some (map (\<lambda>l. AList.update ''text'' (PStr l) (assign_copy (Some cf))) lines)
            else
              (let grown = (if length fs < length lines
                            then add_slots selectedLine cf (length lines) (length fs) fs
                            else fs);
                   popped = pop_slots (length lines) grown;
                   replaced = replace_selected selectedLine cf popped
               in set_texts 0 lines replaced)))"

text \<open>The fields of a slot other than its text.\<close>

definition style_of :: "style \<Rightarrow> style" where
  "style_of s = AList.delete ''text'' s"

definition text_of :: "style \<Rightarrow> prim option" where
  "text_of s = map_of s ''text''"

text \<open>
  A form state for examples: the text \<open>A\<close>, \<open>B\<close>, \<open>C\<close> on three lines, line 1 selected,
  font \<open>X\<close> of size 10, no syncing; and a stand-in for \<open>parseInt\<close> that reads a text of
  decimal digits.
\<close>

definition example_controls :: controls where
  "example_controls =
     \<lparr>font = Some ''X'', font_size = ''10'', font_inverted = False, font_checkbox = False,
      font_align = Some ''left'', line_spacing = None, print_color = None,
      print_type = Some ''text'',
      label_text = Some [CHR ''A'', CHR 0x0A, CHR ''B'', CHR 0x0A, CHR ''C''],
      lineSelect = PStr ''1'', sync_font_settings = False\<rparr>"

definition example_parseInt :: parse_int where
  "example_parseInt v =
     (case v of
        PStr s \<Rightarrow> if s = [] then None else map_option int (read_nat 0 s)
      | _ \<Rightarrow> None)"

definition example_style :: style where
  "example_style =
     [(''font'', PStr ''Y''), (''size'', PStr ''20''), (''inverted'', PBool True),
      (''checkbox'', PBool False), (''align'', PStr ''center''), (''line_spacing'', PStr ''100''),
      (''color'', PStr ''red''), (''text'', PStr ''old'')]"

section \<open>Properties of the undo history\<close>

lemma read_history_save:
  "read_history (saveAllSettingsToLocalStorage d st) =
     (if read_history st = [] \<or> last (read_history st) \<noteq> d
      then drop (Suc (length (read_history st)) - MAX_HISTORY) (read_history st @ [d])
      else read_history st)"
  by (simp add: saveAllSettingsToLocalStorage_def read_history_def Let_def)

lemma ls_settings_save: "ls_settings (saveAllSettingsToLocalStorage d st) = Some d"
  by (simp add: saveAllSettingsToLocalStorage_def Let_def)

lemma save_all_snoc:
  "save_all (ds @ [d]) st = saveAllSettingsToLocalStorage d (save_all ds st)"
  by (simp add: save_all_def)

text \<open>After saving pairwise distinct snapshots the history is the last 40 of them.\<close>

lemma read_history_save_all:
  "distinct ds \<Longrightarrow> read_history st = [] \<Longrightarrow>
     read_history (save_all ds st) = drop (length ds - MAX_HISTORY) ds"
proof (induction ds rule: rev_induct)
  case Nil
  then show ?case by (simp add: save_all_def)
next
  case (snoc d ds)
  let ?h = "read_history (save_all ds st)"
  from snoc have h: "?h = drop (length ds - MAX_HISTORY) ds" and d: "d \<notin> set ds" by simp_all
  have "?h = [] \<or> last ?h \<noteq> d"
  proof (cases "?h = []")
    case False
    then have "last ?h \<in> set ?h" by simp
    then have "last ?h \<in> set ds" unfolding h by (rule in_set_dropD)
    with d show ?thesis by auto
  qed simp
  then have "read_history (save_all (ds @ [d]) st) =
      drop (Suc (length ?h) - MAX_HISTORY) (?h @ [d])"
    by (simp only: save_all_snoc read_history_save if_True)
  also have "\<dots> = drop (length (ds @ [d]) - MAX_HISTORY) (ds @ [d])"
  proof (cases "length ds \<le> MAX_HISTORY")
    case True
    then show ?thesis unfolding h by simp
  next
    case False
    then have e: "Suc (length ds - MAX_HISTORY) = Suc (length ds) - MAX_HISTORY" by arith
    from False show ?thesis unfolding h by (simp add: e [symmetric])
  qed
  finally show ?case .
qed

text \<open>
  Claim C1, as stated: after \<open>k\<close> saves of pairwise distinct snapshots from an empty
  history the undo counter shows \<open>min(k, 39)\<close>. It fails at the first save: the history
  then holds one entry and the counter shows 0, not 1.
\<close>

theorem undo_steps_min_39_counterexample:
  "undo_steps (save_all [[(''a'', Prim (PNum 1))]] empty_storage) \<noteq> int (min 1 39)"
  by (simp add: undo_steps_def save_all_def saveAllSettingsToLocalStorage_def
      read_history_def empty_storage_def MAX_HISTORY_def)

text \<open>
  Claim C1, amended: after \<open>k \<ge> 1\<close> saves of pairwise distinct snapshots from an empty
  history the undo counter shows \<open>min(k, 40) - 1\<close>: one less than the number of entries
  kept, which is capped at 40.
\<close>

theorem undo_steps_after_distinct_saves:
  "distinct ds \<Longrightarrow> ds \<noteq> [] \<Longrightarrow>
     undo_steps (save_all ds empty_storage) = int (min (length ds) 40) - 1"
  using read_history_save_all [of ds empty_storage]
  by (cases ds) (auto simp: undo_steps_def read_history_def empty_storage_def MAX_HISTORY_def)

theorem undo_steps_after_distinct_saves_witness:
  "distinct [[(''a'', Prim (PNum 1))], [(''a'', Prim (PNum 2))], [(''a'', Prim (PNum 3))]] \<and>
   [[(''a'', Prim (PNum 1))], [(''a'', Prim (PNum 2))], [(''a'', Prim (PNum 3))]] \<noteq> [] \<and>
   undo_steps (save_all
     [[(''a'', Prim (PNum 1))], [(''a'', Prim (PNum 2))], [(''a'', Prim (PNum 3))]]
     empty_storage) = 2"
  using undo_steps_after_distinct_saves
    [of "[[(''a'', Prim (PNum 1))], [(''a'', Prim (PNum 2))], [(''a'', Prim (PNum 3))]]"]
  by simp


lemma distinct_adj_drop: "distinct_adj xs \<Longrightarrow> distinct_adj (drop n xs)"
  using distinct_adj_appendD2 [of "take n xs" "drop n xs"] by simp

lemma distinct_adj_take: "distinct_adj xs \<Longrightarrow> distinct_adj (take n xs)"
  using distinct_adj_appendD1 [of "take n xs" "drop n xs"] by simp

text \<open>A save needs only the first half of the invariant to establish both halves.\<close>

lemma history_inv_save_weak:
  "distinct_adj (read_history st) \<Longrightarrow> history_inv (saveAllSettingsToLocalStorage d st)"
  unfolding history_inv_def read_history_save ls_settings_save
  by (auto simp: distinct_adj_append_iff intro: distinct_adj_drop)

lemma history_inv_undo: "history_inv st \<Longrightarrow> history_inv (undoSettings st)"
  by (auto simp: history_inv_def undoSettings_def read_history_def Let_def butlast_conv_take
      intro: distinct_adj_take split: option.splits)

lemma ls_history_repoLoad: "ls_history (repoLoad d st) = ls_history st"
  by (simp add: repoLoad_def Let_def)

text \<open>
  Claim C2, as stated: save, undo and a repository load all preserve the history
  invariant. It fails for the load: after one save of \<open>{label_text: "A"}\<close> the invariant
  holds, and loading \<open>{label_text: "B"}\<close> replaces the current snapshot while the history
  still ends with the saved one.
\<close>

theorem repoLoad_breaks_history_inv_counterexample:
  "history_inv (save_all [[(''label_text'', Prim (PStr ''A''))]] empty_storage) \<and>
   \<not> history_inv (repoLoad [(''label_text'', Prim (PStr ''B''))]
        (save_all [[(''label_text'', Prim (PStr ''A''))]] empty_storage))"
  by (simp add: history_inv_def repoLoad_def save_all_def saveAllSettingsToLocalStorage_def
      read_history_def empty_storage_def MAX_HISTORY_def)

text \<open>
  Claim C2, amended: save and undo preserve the history invariant. A repository load
  writes only the current snapshot and leaves the history as it is, so adjacent entries
  stay distinct, and the next save makes the last entry the current snapshot again.
\<close>

theorem history_inv_preserved:
  "history_inv st \<Longrightarrow>
     history_inv (saveAllSettingsToLocalStorage d st) \<and>
     history_inv (undoSettings st) \<and>
     ls_history (repoLoad d st) = ls_history st \<and>
     distinct_adj (read_history (repoLoad d st)) \<and>
     history_inv (saveAllSettingsToLocalStorage d' (repoLoad d st))"
proof -
  assume inv: "history_inv st"
  then have adj: "distinct_adj (read_history st)" by (simp add: history_inv_def)
  have same: "read_history (repoLoad d st) = read_history st"
    by (simp add: read_history_def ls_history_repoLoad)
  from adj have "history_inv (saveAllSettingsToLocalStorage d st)"
    by (rule history_inv_save_weak)
  moreover from inv have "history_inv (undoSettings st)" by (rule history_inv_undo)
  moreover have "history_inv (saveAllSettingsToLocalStorage d' (repoLoad d st))"
    by (rule history_inv_save_weak) (simp add: same adj)
  ultimately show ?thesis by (simp add: ls_history_repoLoad same adj)
qed

theorem history_inv_preserved_witness:
  "history_inv (save_all [[(''label_text'', Prim (PStr ''A''))]] empty_storage) \<and>
   history_inv (saveAllSettingsToLocalStorage [(''label_text'', Prim (PStr ''B''))]
     (save_all [[(''label_text'', Prim (PStr ''A''))]] empty_storage)) \<and>
   history_inv (undoSettings (save_all [[(''label_text'', Prim (PStr ''A''))]] empty_storage)) \<and>
   read_history (repoLoad [(''label_text'', Prim (PStr ''B''))]
     (save_all [[(''label_text'', Prim (PStr ''A''))]] empty_storage))
     = [[(''label_text'', Prim (PStr ''A''))]]"
proof -
  have h: "history_inv (save_all [[(''label_text'', Prim (PStr ''A''))]] empty_storage)"
    by (simp add: history_inv_def save_all_def saveAllSettingsToLocalStorage_def
        read_history_def empty_storage_def MAX_HISTORY_def)
  have r: "read_history (repoLoad [(''label_text'', Prim (PStr ''B''))]
     (save_all [[(''label_text'', Prim (PStr ''A''))]] empty_storage))
     = [[(''label_text'', Prim (PStr ''A''))]]"
    by (simp add: repoLoad_def save_all_def saveAllSettingsToLocalStorage_def
        read_history_def empty_storage_def MAX_HISTORY_def)
  from history_inv_preserved [OF h, of "[(''label_text'', Prim (PStr ''B''))]"] h r
  show ?thesis by simp
qed

lemma undo_short: "length (read_history st) < 2 \<Longrightarrow> undoSettings st = st"
  by (simp add: undoSettings_def)

lemma undo_long:
  "read_history st = xs @ [y, z] \<Longrightarrow>
     read_history (undoSettings st) = xs @ [y] \<and> ls_settings (undoSettings st) = Some y"
  by (simp add: undoSettings_def read_history_def Let_def butlast_append)

text \<open>
  Claim C3: with fewer than two history entries undo changes nothing; otherwise it removes
  the last entry and makes the new last entry the current snapshot. After saving
  \<open>{a:1}\<close>, \<open>{a:2}\<close>, \<open>{a:3}\<close> from an empty history, one undo leaves \<open>{a:2}\<close> current and
  one undo step.
\<close>

theorem undo_behaviour:
  "(length (read_history st) < 2 \<longrightarrow> undoSettings st = st) \<and>
   (read_history st = xs @ [y, z] \<longrightarrow>
      read_history (undoSettings st) = xs @ [y] \<and> ls_settings (undoSettings st) = Some y) \<and>
   (let st3 = undoSettings (save_all
        [[(''a'', Prim (PNum 1))], [(''a'', Prim (PNum 2))], [(''a'', Prim (PNum 3))]]
        empty_storage)
    in ls_settings st3 = Some [(''a'', Prim (PNum 2))] \<and> undo_steps st3 = 1)"
proof (intro conjI impI)
  show "let st3 = undoSettings (save_all
        [[(''a'', Prim (PNum 1))], [(''a'', Prim (PNum 2))], [(''a'', Prim (PNum 3))]]
        empty_storage)
    in ls_settings st3 = Some [(''a'', Prim (PNum 2))] \<and> undo_steps st3 = 1"
    by (simp add: undo_steps_def undoSettings_def save_all_def saveAllSettingsToLocalStorage_def
        read_history_def empty_storage_def MAX_HISTORY_def)
qed (simp_all add: undo_short undo_long)

theorem undo_behaviour_witness:
  "length (read_history (save_all [[(''a'', Prim (PNum 1))]] empty_storage)) < 2 \<and>
   undoSettings (save_all [[(''a'', Prim (PNum 1))]] empty_storage)
     = save_all [[(''a'', Prim (PNum 1))]] empty_storage \<and>
   read_history (save_all [[(''a'', Prim (PNum 1))], [(''a'', Prim (PNum 2))]] empty_storage)
     = [] @ [[(''a'', Prim (PNum 1))], [(''a'', Prim (PNum 2))]] \<and>
   read_history (undoSettings
       (save_all [[(''a'', Prim (PNum 1))], [(''a'', Prim (PNum 2))]] empty_storage))
     = [[(''a'', Prim (PNum 1))]] \<and>
   ls_settings (undoSettings
       (save_all [[(''a'', Prim (PNum 1))], [(''a'', Prim (PNum 2))]] empty_storage))
     = Some [(''a'', Prim (PNum 1))]"
proof -
  have s: "length (read_history (save_all [[(''a'', Prim (PNum 1))]] empty_storage)) < 2"
    by (simp add: save_all_def saveAllSettingsToLocalStorage_def
        read_history_def empty_storage_def MAX_HISTORY_def)
  have l: "read_history
      (save_all [[(''a'', Prim (PNum 1))], [(''a'', Prim (PNum 2))]] empty_storage)
     = [] @ [[(''a'', Prim (PNum 1))], [(''a'', Prim (PNum 2))]]"
    by (simp add: save_all_def saveAllSettingsToLocalStorage_def
        read_history_def empty_storage_def MAX_HISTORY_def)
  from undo_behaviour [of "save_all [[(''a'', Prim (PNum 1))]] empty_storage"] s
  have a: "undoSettings (save_all [[(''a'', Prim (PNum 1))]] empty_storage)
     = save_all [[(''a'', Prim (PNum 1))]] empty_storage" by blast
  from undo_behaviour
    [of "save_all [[(''a'', Prim (PNum 1))], [(''a'', Prim (PNum 2))]] empty_storage"
        "[]" "[(''a'', Prim (PNum 1))]" "[(''a'', Prim (PNum 2))]"] l
  have b: "read_history (undoSettings
       (save_all [[(''a'', Prim (PNum 1))], [(''a'', Prim (PNum 2))]] empty_storage))
     = [] @ [[(''a'', Prim (PNum 1))]] \<and>
   ls_settings (undoSettings
       (save_all [[(''a'', Prim (PNum 1))], [(''a'', Prim (PNum 2))]] empty_storage))
     = Some [(''a'', Prim (PNum 1))]" by blast
  from s l a b show ?thesis by simp
qed

section \<open>Properties of the content hash and the image cache\<close>

lemma toString36_numeral:
  "toString36 (numeral k) = (if (numeral k :: nat) < 36 then [digit36 (numeral k)]
     else toString36 (numeral k div 36) @ [digit36 (numeral k mod 36)])"
  by (rule toString36.simps)

lemmas hash_eval = generateHash_def hash_value_def hash_round_def FNV_PRIME_def
  FNV_OFFSET_BASIS_def toString36_numeral digit36_def

lemma generateHash_a: "generateHash [97] = ''2o0ongoiv4rrg''"
  by (simp add: hash_eval)

lemma generateHash_xyz: "generateHash [120, 121, 122] = ''2x363rtl3e49s''"
  by (simp add: hash_eval)

text \<open>
  Claim C5: writing the same content twice gives the same key both times; the second
  write answers \<open>false\<close> and leaves the store as the first write left it, whatever mime
  type it carries; the store has gained the entry for that key and no other, one entry
  when the key was new.
\<close>

theorem save_image_twice:
  assumes "save_image None m c db = (k1, r1, db1)"
    and "save_image None m' c db1 = (k2, r2, db2)"
  shows "k2 = k1 \<and> r2 = Some False \<and> db2 = db1 \<and>
     dom db2 = insert k1 (dom db) \<and> (\<forall>k. k \<noteq> k1 \<longrightarrow> db2 k = db k) \<and>
     (db k1 = None \<longrightarrow> r1 = Some True \<and> db2 k1 = Some \<lparr>mime = m, b64 = c\<rparr>) \<and>
     (db k1 \<noteq> None \<longrightarrow> r1 = Some False \<and> db2 = db) \<and>
     (finite (dom db) \<and> db k1 = None \<longrightarrow> card (dom db2) = Suc (card (dom db)))"
  using assms
  by (auto simp: save_image_def saveImageToDB_def Let_def domIff split: option.splits)

theorem save_image_twice_witness:
  "save_image None [105] [97] Map.empty =
     (''2o0ongoiv4rrg'', Some True, [''2o0ongoiv4rrg'' \<mapsto> \<lparr>mime = [105], b64 = [97]\<rparr>]) \<and>
   save_image None [106] [97] [''2o0ongoiv4rrg'' \<mapsto> \<lparr>mime = [105], b64 = [97]\<rparr>] =
     (''2o0ongoiv4rrg'', Some False, [''2o0ongoiv4rrg'' \<mapsto> \<lparr>mime = [105], b64 = [97]\<rparr>]) \<and>
   card (dom [''2o0ongoiv4rrg'' \<mapsto> \<lparr>mime = [105], b64 = [97]\<rparr>])
     = Suc (card (dom (Map.empty :: image_db)))"
proof -
  have a: "save_image None [105] [97] Map.empty =
     (''2o0ongoiv4rrg'', Some True, [''2o0ongoiv4rrg'' \<mapsto> \<lparr>mime = [105], b64 = [97]\<rparr>])"
    by (simp add: save_image_def saveImageToDB_def generateHash_a Let_def)
  have b: "save_image None [106] [97] [''2o0ongoiv4rrg'' \<mapsto> \<lparr>mime = [105], b64 = [97]\<rparr>] =
     (''2o0ongoiv4rrg'', Some False, [''2o0ongoiv4rrg'' \<mapsto> \<lparr>mime = [105], b64 = [97]\<rparr>])"
    by (simp add: save_image_def saveImageToDB_def generateHash_a Let_def)
  from save_image_twice [OF a b] a b show ?thesis by simp
qed

text \<open>The scenario of the specification: \<open>"xyz"\<close> written, read back, written again.\<close>

lemma xyz_scenario:
  "save_image None m [120, 121, 122] Map.empty = (h, r, db) \<Longrightarrow>
     h = ''2x363rtl3e49s'' \<and> r = Some True \<and>
     getImageFromDB None h db = Some \<lparr>mime = m, b64 = [120, 121, 122]\<rparr> \<and>
     save_image None m [120, 121, 122] db = (h, Some False, db)"
  by (auto simp: save_image_def saveImageToDB_def getImageFromDB_def generateHash_xyz Let_def)

lemma mask64: "(push_bit 64 1 - 1 :: nat) = mask 64"
  by (simp add: mask_eq_exp_minus_1)

lemma unat_ucast_16_64: "unat (ucast (c :: 16 word) :: 64 word) = unat c"
proof -
  have "unat c < 2 ^ 16" using unsigned_less [of c] by simp
  then have "unat c < 2 ^ 64" by simp
  then show ?thesis by (simp add: unsigned_ucast_eq take_bit_nat_eq_self)
qed

text \<open>A round on \<open>BigInt\<close> with the mask is a round of 64-bit arithmetic.\<close>

lemma hash_round_word:
  "hash_round (unat (w :: 64 word)) c = unat ((w XOR ucast c) * of_nat FNV_PRIME)"
proof -
  have "hash_round (unat w) c = ((unat w XOR unat c) * 1099511628211) mod 2 ^ 64"
    by (simp only: hash_round_def mask64 FNV_PRIME_def take_bit_eq_mask [symmetric] take_bit_eq_mod)
  also have "\<dots> = unat ((w XOR ucast c) * of_nat FNV_PRIME)"
    by (simp add: unat_word_ariths unsigned_xor_eq unat_ucast_16_64 FNV_PRIME_def)
  finally show ?thesis .
qed

lemma foldl_hash_round_word:
  "foldl hash_round (unat (w :: 64 word)) s =
     unat (foldl (\<lambda>h c. (h XOR ucast c) * of_nat FNV_PRIME) w s)"
  by (induction s arbitrary: w) (simp_all add: hash_round_word)

lemma hash_value_word:
  "hash_value s =
     unat (foldl (\<lambda>h c. (h XOR ucast c) * of_nat FNV_PRIME) (of_nat FNV_OFFSET_BASIS :: 64 word) s)"
proof -
  have e: "FNV_OFFSET_BASIS = unat (of_nat FNV_OFFSET_BASIS :: 64 word)"
    by (simp add: FNV_OFFSET_BASIS_def)
  show ?thesis unfolding hash_value_def by (subst e) (rule foldl_hash_round_word)
qed

lemma hash_value_less: "hash_value s < 2 ^ 64"
proof -
  have "unat (w :: 64 word) < 2 ^ 64" for w using unsigned_less [of w] by simp
  then show ?thesis unfolding hash_value_word .
qed

lemma digits_roundtrip: "\<forall>d \<in> set [0..<36]. value36 (digit36 d) = d"
  by code_simp

lemma value36_digit36: "d < 36 \<Longrightarrow> value36 (digit36 d) = d"
  using digits_roundtrip by simp

lemma fromString36_append: "fromString36 (s @ [c]) = fromString36 s * 36 + value36 c"
  by (simp add: fromString36_def)

text \<open>\<open>toString36\<close> writes its argument in base 36: reading the digits back gives it.\<close>

lemma fromString36_toString36: "fromString36 (toString36 n) = n"
proof (induction n rule: toString36.induct)
  case (1 n)
  show ?case
  proof (cases "n < 36")
    case True
    then show ?thesis
      by (subst toString36.simps) (simp add: fromString36_def value36_digit36)
  next
    case False
    with 1 have "fromString36 (toString36 (n div 36)) = n div 36" by simp
    with False show ?thesis
      by (subst toString36.simps) (simp add: fromString36_append value36_digit36)
  qed
qed

section \<open>Properties of the diff utilities\<close>

lemma in_keys_iff: "k \<in> fst ` set al \<longleftrightarrow> map_of al k \<noteq> None"
  by (simp add: map_of_eq_None_iff)

text \<open>What the loop of \<open>diffFlatten\<close> has done to the three objects after the keys \<open>ks\<close>.\<close>

lemma diff_key_fold:
  "foldl (diff_key b a) (A, C, R) ks = (A', C', R') \<Longrightarrow>
     map_of A' k = (if k \<in> set ks \<and> map_of b k \<noteq> None then None else map_of A k) \<and>
     map_of C' k =
       (if k \<in> set ks
        then (if map_of a k \<noteq> map_of b k \<and> map_of b k \<noteq> None
              then Some (FromTo (map_of b k) (map_of a k)) else None)
        else map_of C k) \<and>
     map_of R' k = (if k \<in> set ks then None else map_of R k)"
  if "set ks \<subseteq> fst ` set a"
  using that
proof (induction ks arbitrary: A C R)
  case Nil
  then show ?case by simp
next
  case (Cons x xs)
  obtain A1 C1 R1 where s: "diff_key b a (A, C, R) x = (A1, C1, R1)"
    by (cases "diff_key b a (A, C, R) x") auto
  from Cons.prems have x: "map_of a x \<noteq> None" and xs: "set xs \<subseteq> fst ` set a"
    by (auto simp: in_keys_iff)
  from Cons.prems(1) s have "foldl (diff_key b a) (A1, C1, R1) xs = (A', C', R')" by simp
  from Cons.IH [OF this xs] have ih:
     "map_of A' k = (if k \<in> set xs \<and> map_of b k \<noteq> None then None else map_of A1 k)"
     "map_of C' k =
       (if k \<in> set xs
        then (if map_of a k \<noteq> map_of b k \<and> map_of b k \<noteq> None
              then Some (FromTo (map_of b k) (map_of a k)) else None)
        else map_of C1 k)"
     "map_of R' k = (if k \<in> set xs then None else map_of R1 k)" by simp_all
  from s x have s1:
     "map_of A1 k = (if k = x \<and> map_of b k \<noteq> None then None else map_of A k)"
     "map_of C1 k = (if k = x then (if map_of a k \<noteq> map_of b k \<and> map_of b k \<noteq> None
              then Some (FromTo (map_of b k) (map_of a k)) else None) else map_of C k)"
     "map_of R1 k = (if k = x then None else map_of R k)"
    by (auto simp: diff_key_def in_keys_iff AList.delete_conv' AList.update_conv' split: if_splits)
  show ?case unfolding ih s1 by auto
qed

lemma diff_key_empty_fold:
  "set ks \<subseteq> fst ` set a \<Longrightarrow>
     foldl (diff_key [] a) (A, C, []) ks = (A, filter (\<lambda>p. fst p \<notin> set ks) C, [])"
proof (induction ks arbitrary: C)
  case Nil
  then show ?case by simp
next
  case (Cons x xs)
  then have x: "map_of a x \<noteq> None" by (auto simp: in_keys_iff)
  then have "diff_key [] a (A, C, []) x = (A, AList.delete x C, [])"
    by (auto simp: diff_key_def)
  with Cons show ?case by (auto simp: AList.delete_eq intro: filter_cong)
qed

lemma diffFlatten_empty: "diffFlatten [] fl = (fl, [], [])"
  unfolding diffFlatten_def by (subst diff_key_empty_fold) (auto simp: filter_empty_conv)

lemma diffFlatten_maps:
  assumes "diffFlatten before after = (added, changed, removed)"
  shows "map_of added k = (if map_of before k = None then map_of after k else None)"
    and "map_of changed k =
       (if map_of before k \<noteq> None \<and> map_of after k \<noteq> None \<and> map_of after k \<noteq> map_of before k
        then Some (FromTo (map_of before k) (map_of after k)) else None)"
    and "map_of removed k = (if map_of after k = None then map_of before k else None)"
proof -
  let ?C = "map (\<lambda>kv. (fst kv, Copied (snd kv))) after"
  have C: "map_of ?C k = None" if "map_of after k = None"
    using that by (simp add: map_of_eq_None_iff image_image)
  from assms have f: "foldl (diff_key before after) (after, ?C, before) (map fst after)
      = (added, changed, removed)" by (simp add: diffFlatten_def)
  have ks: "k \<in> set (map fst after) \<longleftrightarrow> map_of after k \<noteq> None"
    by (simp add: map_of_eq_None_iff)
  note r = diff_key_fold [OF _ f, of k, unfolded ks]
  show "map_of added k = (if map_of before k = None then map_of after k else None)"
    using r by auto
  show "map_of changed k =
       (if map_of before k \<noteq> None \<and> map_of after k \<noteq> None \<and> map_of after k \<noteq> map_of before k
        then Some (FromTo (map_of before k) (map_of after k)) else None)"
    using r C by auto
  show "map_of removed k = (if map_of after k = None then map_of before k else None)"
    using r by auto
qed

lemma dig_Nil: "dig parse path [] object = Some object"
  by (subst dig.simps) simp

lemma dig_Cons:
  "dig parse path (e # rest) object =
     (case decode parse (snd e) of
        Prim p \<Rightarrow> dig parse path rest (AList.update (join_dot (path @ [fst e])) p object)
      | Arr xs \<Rightarrow>
          Option.bind (dig parse (path @ [fst e]) (array_entries xs) object)
            (\<lambda>object'. dig parse path rest object')
      | Obj ps \<Rightarrow>
          Option.bind (dig parse (path @ [fst e]) ps object)
            (\<lambda>object'. dig parse path rest object'))"
  by (subst dig.simps) simp

lemmas flatten_eval = flattenObject_def compareObjects_def dig_Nil dig_Cons decode_def
  looks_json_def parse_empty_only_def array_entries_def

text \<open>
  Claim C7: in the result of the diff, a key of \<open>after\<close> that \<open>before\<close> lacks is in
  \<open>added\<close> with its value, a key of both with different values is in \<open>changed\<close> with
  \<open>{from, to}\<close>, a key of \<open>before\<close> that \<open>after\<close> lacks is in \<open>removed\<close> with its value,
  each in that object only, and a key with the same value on both sides is in none; so the
  diff of the empty map against a flat map, and of \<open>undefined\<close> against a record, has the
  whole flat map as \<open>added\<close> and nothing changed or removed.
\<close>

theorem diffFlatten_classifies:
  assumes "diffFlatten before after = (added, changed, removed)"
  shows
   "(map_of after k = Some a \<and> map_of before k = None \<longrightarrow>
       map_of added k = Some a \<and> map_of changed k = None \<and> map_of removed k = None) \<and>
    (map_of after k = Some a \<and> map_of before k = Some b \<and> a \<noteq> b \<longrightarrow>
       map_of changed k = Some (FromTo (Some b) (Some a)) \<and>
       map_of added k = None \<and> map_of removed k = None) \<and>
    (map_of before k = Some b \<and> map_of after k = None \<longrightarrow>
       map_of removed k = Some b \<and> map_of added k = None \<and> map_of changed k = None) \<and>
    (map_of after k = Some a \<and> map_of before k = Some a \<longrightarrow>
       map_of added k = None \<and> map_of changed k = None \<and> map_of removed k = None) \<and>
    diffFlatten [] after = (after, [], []) \<and>
    (flattenObject parse (Some S) = Some fl \<longrightarrow>
       compareObjects parse None (Some S) = Some (fl, [], []))"
  using diffFlatten_maps [OF assms, of k]
  by (auto simp: diffFlatten_empty compareObjects_def flattenObject_def)

lemma diff_example:
  "diffFlatten [(''a'', PNum 1), (''b'', PNum 2), (''c'', PNum 3)]
               [(''b'', PNum 2), (''c'', PNum 4), (''d'', PNum 5)]
   = ([(''d'', PNum 5)], [(''c'', FromTo (Some (PNum 3)) (Some (PNum 4)))], [(''a'', PNum 1)])"
  by (simp add: diffFlatten_def diff_key_def)

theorem diffFlatten_classifies_witness:
  "diffFlatten [(''a'', PNum 1), (''b'', PNum 2), (''c'', PNum 3)]
               [(''b'', PNum 2), (''c'', PNum 4), (''d'', PNum 5)]
   = ([(''d'', PNum 5)], [(''c'', FromTo (Some (PNum 3)) (Some (PNum 4)))], [(''a'', PNum 1)]) \<and>
   map_of [(''d'', PNum 5)] ''d'' = Some (PNum 5) \<and>
   map_of [(''c'', FromTo (Some (PNum 3)) (Some (PNum 4)))] ''c''
     = Some (FromTo (Some (PNum 3)) (Some (PNum 4))) \<and>
   map_of [(''a'', PNum 1)] ''a'' = Some (PNum 1) \<and>
   map_of [(''d'', PNum 5)] ''b'' = None \<and>
   flattenObject parse_empty_only (Some [(''x'', Prim (PNum 1))]) = Some [(''x'', PNum 1)] \<and>
   compareObjects parse_empty_only None (Some [(''x'', Prim (PNum 1))])
     = Some ([(''x'', PNum 1)], [], [])"
proof -
  note e = diff_example
  have f: "flattenObject parse_empty_only (Some [(''x'', Prim (PNum 1))]) = Some [(''x'', PNum 1)]"
    by (simp add: flatten_eval)
  from diffFlatten_classifies [OF e, of "''d''" "PNum 5" "PNum 0" parse_empty_only
      "[(''x'', Prim (PNum 1))]" "[(''x'', PNum 1)]"] f
  have 1: "map_of [(''d'', PNum 5)] ''d'' = Some (PNum 5) \<and>
      compareObjects parse_empty_only None (Some [(''x'', Prim (PNum 1))])
        = Some ([(''x'', PNum 1)], [], [])" by simp
  from diffFlatten_classifies [OF e, of "''c''" "PNum 4" "PNum 3"]
  have 2: "map_of [(''c'', FromTo (Some (PNum 3)) (Some (PNum 4)))] ''c''
     = Some (FromTo (Some (PNum 3)) (Some (PNum 4)))" by simp
  from diffFlatten_classifies [OF e, of "''a''" "PNum 0" "PNum 1"]
  have 3: "map_of [(''a'', PNum 1)] ''a'' = Some (PNum 1)" by simp
  from diffFlatten_classifies [OF e, of "''b''" "PNum 2" "PNum 2"]
  have 4: "map_of [(''d'', PNum 5)] ''b'' = None" by simp
  from e f 1 2 3 4 show ?thesis by simp
qed

lemma dig_all_skipped:
  assumes "\<And>e path rest object. e \<in> set es \<Longrightarrow>
     dig parse path (e # rest) object = dig parse path rest object"
  shows "dig parse path es object = Some object"
  using assms by (induction es) (simp_all add: dig_Nil)

lemma dig_hollow:
  "hollow parse v \<Longrightarrow> dig parse path ((k, v) # rest) object = dig parse path rest object"
proof (induction arbitrary: path rest object k rule: hollow.induct)
  case (hollow_Arr v xs)
  have "dig parse (path @ [k]) (array_entries xs) object = Some object"
  proof (rule dig_all_skipped)
    fix e path' rest' object'
    assume "e \<in> set (array_entries xs)"
    then have "(fst e, snd e) \<in> set (zip (map show_nat [0..<length xs]) xs)"
      by (simp add: array_entries_def)
    then have "snd e \<in> set xs" by (rule set_zip_rightD)
    with hollow_Arr.IH
    have "dig parse path' ((fst e, snd e) # rest') object' = dig parse path' rest' object'"
      by blast
    then show "dig parse path' (e # rest') object' = dig parse path' rest' object'" by simp
  qed
  with hollow_Arr.hyps show ?case by (simp add: dig_Cons)
next
  case (hollow_Obj v ps)
  have "dig parse (path @ [k]) ps object = Some object"
  proof (rule dig_all_skipped)
    fix e path' rest' object'
    assume "e \<in> set ps"
    with hollow_Obj.IH
    have "dig parse path' ((fst e, snd e) # rest') object' = dig parse path' rest' object'"
      by blast
    then show "dig parse path' (e # rest') object' = dig parse path' rest' object'" by simp
  qed
  with hollow_Obj.hyps show ?case by (simp add: dig_Cons)
qed

lemma dig_drop_hollow:
  "hollow parse v \<Longrightarrow>
     dig parse path (es1 @ (k, v) # es2) object = dig parse path (es1 @ es2) object"
proof (induction es1 arbitrary: object)
  case Nil
  then show ?case by (simp add: dig_hollow)
next
  case (Cons e es1)
  then have "dig parse path (es1 @ (k, v) # es2) = dig parse path (es1 @ es2)"
    by (intro ext) simp
  then show ?case by (simp add: dig_Cons split: jsval.splits)
qed

text \<open>\<open>dig\<close> returns on entries whose values settle, and so does \<open>flattenObject\<close>.\<close>

lemma dig_returns_list:
  assumes "\<And>e path rest object. e \<in> set es \<Longrightarrow>
     (\<And>object'. \<exists>r. dig parse path rest object' = Some r) \<Longrightarrow>
     \<exists>r. dig parse path (e # rest) object = Some r"
  shows "\<exists>r. dig parse path es object = Some r"
  using assms
proof (induction es arbitrary: object)
  case Nil
  then show ?case by (simp add: dig_Nil)
next
  case (Cons e es)
  have "\<exists>r. dig parse path es object' = Some r" for object'
    by (rule Cons.IH) (rule Cons.prems, simp_all)
  then show ?case by (intro Cons.prems) simp_all
qed

lemma dig_settles:
  "settles parse v \<Longrightarrow> (\<And>object'. \<exists>r. dig parse path rest object' = Some r) \<Longrightarrow>
     \<exists>r. dig parse path ((k, v) # rest) object = Some r"
proof (induction arbitrary: path rest object k rule: settles.induct)
  case (settles_Prim v p)
  then show ?case by (simp add: dig_Cons)
next
  case (settles_Arr v xs)
  have "\<exists>r. dig parse (path @ [k]) (array_entries xs) object = Some r"
  proof (rule dig_returns_list)
    fix e path' rest' object'
    assume "e \<in> set (array_entries xs)"
      and c: "\<And>object'. \<exists>r. dig parse path' rest' object' = Some r"
    then have "(fst e, snd e) \<in> set (zip (map show_nat [0..<length xs]) xs)"
      by (simp add: array_entries_def)
    then have "snd e \<in> set xs" by (rule set_zip_rightD)
    with settles_Arr.IH c
    have "\<exists>r. dig parse path' ((fst e, snd e) # rest') object' = Some r" by blast
    then show "\<exists>r. dig parse path' (e # rest') object' = Some r" by simp
  qed
  then obtain r where "dig parse (path @ [k]) (array_entries xs) object = Some r" ..
  with settles_Arr.hyps settles_Arr.prems [of r] show ?case by (simp add: dig_Cons)
next
  case (settles_Obj v ps)
  have "\<exists>r. dig parse (path @ [k]) ps object = Some r"
  proof (rule dig_returns_list)
    fix e path' rest' object'
    assume "e \<in> set ps"
      and c: "\<And>object'. \<exists>r. dig parse path' rest' object' = Some r"
    with settles_Obj.IH
    have "\<exists>r. dig parse path' ((fst e, snd e) # rest') object' = Some r" by blast
    then show "\<exists>r. dig parse path' (e # rest') object' = Some r" by simp
  qed
  then obtain r where "dig parse (path @ [k]) ps object = Some r" ..
  with settles_Obj.hyps settles_Obj.prems [of r] show ?case by (simp add: dig_Cons)
qed

lemma flattenObject_returns:
  "(\<forall>e \<in> set es. settles parse (snd e)) \<Longrightarrow> \<exists>fl. flattenObject parse (Some es) = Some fl"
  unfolding flattenObject_def option.case
proof (rule dig_returns_list)
  fix e path rest object
  assume "\<forall>e\<in>set es. settles parse (snd e)" "e \<in> set es"
    and c: "\<And>object'. \<exists>r. dig parse path rest object' = Some r"
  then have "settles parse (snd e)" by simp
  from dig_settles [OF this c, of "fst e" object]
  show "\<exists>r. dig parse path (e # rest) object = Some r" by simp
qed

lemma hollow_settles: "hollow parse v \<Longrightarrow> settles parse v"
  by (induction rule: hollow.induct) (auto intro: settles_Arr settles_Obj)

text \<open>
  Claim C10: flattening \<open>undefined\<close> gives the empty map, and a field whose value has no
  scalar leaves (an object or array, or a string that parses to one, with nothing but such
  values inside) is dropped: the record flattens as it does without the field, and the diff
  against any other record is the diff without the field. The strings \<open>{}\<close> and \<open>[]\<close> are
  such values when \<open>JSON.parse\<close> reads them as the empty object and the empty array.
\<close>

theorem flatten_drops_hollow:
  "flattenObject parse None = Some [] \<and>
   (hollow parse v \<longrightarrow>
      flattenObject parse (Some (es1 @ (k, v) # es2)) = flattenObject parse (Some (es1 @ es2)) \<and>
      compareObjects parse before (Some (es1 @ (k, v) # es2))
        = compareObjects parse before (Some (es1 @ es2)) \<and>
      compareObjects parse (Some (es1 @ (k, v) # es2)) after
        = compareObjects parse (Some (es1 @ es2)) after) \<and>
   (parse ''{}'' = Some (Obj []) \<longrightarrow> hollow parse (Prim (PStr ''{}''))) \<and>
   (parse ''[]'' = Some (Arr []) \<longrightarrow> hollow parse (Prim (PStr ''[]''))) \<and>
   hollow parse (Obj []) \<and> hollow parse (Arr []) \<and>
   (hollow parse v \<and> (\<forall>e \<in> set (es1 @ es2). settles parse (snd e)) \<longrightarrow>
      (\<exists>fl. flattenObject parse (Some (es1 @ (k, v) # es2)) = Some fl))"
proof (intro conjI impI)
  assume "hollow parse v \<and> (\<forall>e \<in> set (es1 @ es2). settles parse (snd e))"
  then have "\<forall>e \<in> set (es1 @ (k, v) # es2). settles parse (snd e)"
    by (auto intro: hollow_settles)
  then show "\<exists>fl. flattenObject parse (Some (es1 @ (k, v) # es2)) = Some fl"
    by (rule flattenObject_returns)
next
  assume h: "hollow parse v"
  then show f: "flattenObject parse (Some (es1 @ (k, v) # es2))
      = flattenObject parse (Some (es1 @ es2))"
    by (simp add: flattenObject_def dig_drop_hollow)
  from f show "compareObjects parse before (Some (es1 @ (k, v) # es2))
        = compareObjects parse before (Some (es1 @ es2))"
    by (simp only: compareObjects_def)
  from f show "compareObjects parse (Some (es1 @ (k, v) # es2)) after
        = compareObjects parse (Some (es1 @ es2)) after"
    by (simp add: compareObjects_def)
next
  assume "parse ''{}'' = Some (Obj [])"
  then have "decode parse (Prim (PStr ''{}'')) = Obj []"
    by (simp add: decode_def looks_json_def)
  then show "hollow parse (Prim (PStr ''{}''))" by (rule hollow_Obj) simp
next
  assume "parse ''[]'' = Some (Arr [])"
  then have "decode parse (Prim (PStr ''[]'')) = Arr []"
    by (simp add: decode_def looks_json_def)
  then show "hollow parse (Prim (PStr ''[]''))" by (rule hollow_Arr) simp
next
  show "hollow parse (Obj [])" by (rule hollow_Obj [of _ _ "[]"]) (simp_all add: decode_def)
  show "hollow parse (Arr [])" by (rule hollow_Arr [of _ _ "[]"]) (simp_all add: decode_def)
qed (simp add: flattenObject_def)

theorem flatten_drops_hollow_witness:
  "parse_empty_only ''{}'' = Some (Obj []) \<and> parse_empty_only ''[]'' = Some (Arr []) \<and>
   hollow parse_empty_only (Prim (PStr ''{}'')) \<and>
   hollow parse_empty_only (Prim (PStr ''[]'')) \<and>
   flattenObject parse_empty_only
     (Some ([(''a'', Prim (PNum 1))] @ (''b'', Prim (PStr ''{}'')) # [(''c'', Prim (PStr ''x''))]))
     = Some [(''a'', PNum 1), (''c'', PStr ''x'')] \<and>
   compareObjects parse_empty_only (Some [(''b'', Prim (PStr ''x''))])
     (Some ([] @ (''b'', Prim (PStr ''[]'')) # []))
     = Some ([], [], [(''b'', PStr ''x'')]) \<and>
   settles parse_empty_only (Prim (PNum 1)) \<and> settles parse_empty_only (Prim (PStr ''x''))"
proof -
  have s: "settles parse_empty_only (Prim (PNum 1))" "settles parse_empty_only (Prim (PStr ''x''))"
    by (auto intro!: settles_Prim simp: decode_def looks_json_def)
  have p: "parse_empty_only ''{}'' = Some (Obj [])" "parse_empty_only ''[]'' = Some (Arr [])"
    by (simp_all add: parse_empty_only_def)
  from flatten_drops_hollow [of parse_empty_only] p
  have h: "hollow parse_empty_only (Prim (PStr ''{}''))"
    "hollow parse_empty_only (Prim (PStr ''[]''))" by blast+
  have a: "flattenObject parse_empty_only (Some ([(''a'', Prim (PNum 1))] @ [(''c'', Prim (PStr ''x''))]))
     = Some [(''a'', PNum 1), (''c'', PStr ''x'')]"
    by (simp add: flatten_eval)
  have b: "compareObjects parse_empty_only (Some [(''b'', Prim (PStr ''x''))]) (Some ([] @ []))
     = Some ([], [], [(''b'', PStr ''x'')])"
    by (simp add: flatten_eval diffFlatten_def)
  from flatten_drops_hollow [of parse_empty_only "Prim (PStr ''{}'')" "[(''a'', Prim (PNum 1))]"
      "''b''" "[(''c'', Prim (PStr ''x''))]"] h(1) a
  have 1: "flattenObject parse_empty_only
     (Some ([(''a'', Prim (PNum 1))] @ (''b'', Prim (PStr ''{}'')) # [(''c'', Prim (PStr ''x''))]))
     = Some [(''a'', PNum 1), (''c'', PStr ''x'')]" by simp
  from flatten_drops_hollow [of parse_empty_only "Prim (PStr ''[]'')" "[]"
      "''b''" "[]" "Some [(''b'', Prim (PStr ''x''))]"] h(2) b
  have 2: "compareObjects parse_empty_only (Some [(''b'', Prim (PStr ''x''))])
     (Some ([] @ (''b'', Prim (PStr ''[]'')) # []))
     = Some ([], [], [(''b'', PStr ''x'')])" by simp
  from p h 1 2 s show ?thesis by simp
qed

section \<open>Properties of the per-line font settings\<close>

lemma split_lines_nonempty: "split_lines s \<noteq> []"
  by (induction s rule: split_lines.induct) (auto split: list.splits)

lemma pop_slots_take: "pop_slots n fs = take n fs"
proof (induction n fs rule: pop_slots.induct)
  case (1 n fs)
  show ?case
  proof (cases "length fs > n")
    case True
    with 1 have "pop_slots n fs = take n (butlast fs)" by (subst pop_slots.simps) simp
    with True show ?thesis by (simp add: take_butlast)
  next
    case False
    then show ?thesis by (subst pop_slots.simps) simp
  qed
qed

lemma add_slots_step:
  "i < n \<Longrightarrow> add_slots sel cf n i fs =
     add_slots sel cf n (Suc i)
       (fs @ [if PNum (int i) = sel \<or> sel = PNull then assign_copy (Some cf)
              else assign_copy (element fs (int i - 1))])"
  by (subst add_slots.simps) simp

lemma add_slots_stop: "\<not> i < n \<Longrightarrow> add_slots sel cf n i fs = fs"
  by (subst add_slots.simps) simp

lemma add_slots_null:
  "add_slots PNull cf n i fs = fs @ replicate (n - i) cf"
proof (induction PNull cf n i fs rule: add_slots.induct)
  case (1 cf n i fs)
  show ?case
  proof (cases "i < n")
    case True
    with 1 have "add_slots PNull cf n i fs = (fs @ [cf]) @ replicate (n - Suc i) cf"
      by (simp add: add_slots_step assign_copy_def)
    also from True have "\<dots> = fs @ replicate (n - i) cf"
      by (simp add: replicate_app_Cons_same Suc_diff_Suc flip: replicate_Suc)
    finally show ?thesis .
  next
    case False
    then show ?thesis by (simp add: add_slots_stop)
  qed
qed

lemma add_slots_prefix:
  "i = length fs \<Longrightarrow> \<exists>ys. add_slots sel cf n i fs = fs @ ys \<and> length ys = n - i"
proof (induction sel cf n i fs rule: add_slots.induct)
  case (1 sel cf n i fs)
  let ?x = "if PNum (int i) = sel \<or> sel = PNull then assign_copy (Some cf)
              else assign_copy (element fs (int i - 1))"
  show ?case
  proof (cases "i < n")
    case True
    have "\<exists>ys. add_slots sel cf n (Suc i) (fs @ [?x]) = (fs @ [?x]) @ ys \<and> length ys = n - Suc i"
      by (rule "1.IH" [OF True]) (simp add: "1.prems")
    then obtain ys where ys: "add_slots sel cf n (Suc i) (fs @ [?x]) = (fs @ [?x]) @ ys"
      "length ys = n - Suc i" by blast
    have "add_slots sel cf n i fs = fs @ (?x # ys)"
      by (simp only: add_slots_step [OF True] ys) simp
    moreover from True ys(2) have "length (?x # ys) = n - i" by simp
    ultimately show ?thesis by blast
  next
    case False
    then show ?thesis by (simp add: add_slots_stop)
  qed
qed

lemma element_last:
  "fs \<noteq> [] \<Longrightarrow> element fs (int (length fs) - 1) = Some (last fs)"
proof -
  assume ne: "fs \<noteq> []"
  then have "0 < length fs" by simp
  then have n: "nat (int (length fs) - 1) = length fs - 1" and p: "0 \<le> int (length fs) - 1"
    by linarith+
  from ne show ?thesis unfolding element_def n using p by (simp add: last_conv_nth)
qed

lemma add_slots_chain:
  "i = length fs \<Longrightarrow> fs \<noteq> [] \<Longrightarrow> sel \<noteq> PNull \<Longrightarrow> i \<le> j \<Longrightarrow> j \<le> n \<Longrightarrow>
     (\<forall>m. i \<le> m \<and> m < j \<longrightarrow> PNum (int m) \<noteq> sel) \<Longrightarrow>
     take j (add_slots sel cf n i fs) = fs @ replicate (j - i) (last fs)"
proof (induction sel cf n i fs rule: add_slots.induct)
  case (1 sel cf n i fs)
  let ?x = "if PNum (int i) = sel \<or> sel = PNull then assign_copy (Some cf)
              else assign_copy (element fs (int i - 1))"
  show ?case
  proof (cases "i < j")
    case True
    with "1.prems" have ne: "PNum (int i) \<noteq> sel" and lt: "i < n" by auto
    from "1.prems"(1,2) have "element fs (int i - 1) = Some (last fs)"
      by (simp add: element_last)
    with ne "1.prems"(3) have x: "?x = last fs" by (simp add: assign_copy_def)
    have "take j (add_slots sel cf n (Suc i) (fs @ [?x]))
        = (fs @ [?x]) @ replicate (j - Suc i) (last (fs @ [?x]))"
    proof (rule "1.IH" [OF lt])
      show "Suc i = length (fs @ [?x])" using "1.prems"(1) by simp
      show "fs @ [?x] \<noteq> []" by simp
      show "sel \<noteq> PNull" by (rule "1.prems"(3))
      show "Suc i \<le> j" using True by simp
      show "j \<le> n" by (rule "1.prems"(5))
      show "\<forall>m. Suc i \<le> m \<and> m < j \<longrightarrow> PNum (int m) \<noteq> sel" using "1.prems"(6) by simp
    qed
    also have "\<dots> = fs @ replicate (j - i) (last fs)"
      unfolding x using True
      by (simp add: replicate_app_Cons_same Suc_diff_Suc flip: replicate_Suc)
    finally show ?thesis by (simp only: add_slots_step [OF lt])
  next
    case False
    with "1.prems" have "j = i" by simp
    moreover from add_slots_prefix [OF "1.prems"(1), of sel cf n]
    obtain ys where "add_slots sel cf n i fs = fs @ ys" by blast
    ultimately show ?thesis using "1.prems"(1) by simp
  qed
qed

lemma set_texts_result:
  "i + length ts = length fs \<Longrightarrow>
     \<exists>R. set_texts i ts fs = Some R \<and> length R = length fs \<and>
         (\<forall>j<i. R ! j = fs ! j) \<and>
         (\<forall>j. i \<le> j \<and> j < length fs \<longrightarrow>
              R ! j = AList.update ''text'' (PStr (ts ! (j - i))) (fs ! j))"
proof (induction ts arbitrary: i fs)
  case Nil
  then show ?case by auto
next
  case (Cons t ts)
  let ?fs = "fs[i := AList.update ''text'' (PStr t) (fs ! i)]"
  from Cons.prems have lt: "i < length fs" by simp
  from Cons.prems have "Suc i + length ts = length ?fs" by simp
  from Cons.IH [OF this] obtain R where R: "set_texts (Suc i) ts ?fs = Some R"
    "length R = length fs" "\<forall>j<Suc i. R ! j = ?fs ! j"
    "\<forall>j. Suc i \<le> j \<and> j < length fs \<longrightarrow>
        R ! j = AList.update ''text'' (PStr (ts ! (j - Suc i))) (?fs ! j)"
    by auto
  have "\<forall>j<i. R ! j = fs ! j" using R(3) by simp
  moreover have "\<forall>j. i \<le> j \<and> j < length fs \<longrightarrow>
       R ! j = AList.update ''text'' (PStr ((t # ts) ! (j - i))) (fs ! j)"
  proof (intro allI impI)
    fix j assume j: "i \<le> j \<and> j < length fs"
    show "R ! j = AList.update ''text'' (PStr ((t # ts) ! (j - i))) (fs ! j)"
    proof (cases "j = i")
      case True
      with R(3) lt show ?thesis by simp
    next
      case False
      with j have s: "Suc i \<le> j" and e: "j - i = Suc (j - Suc i)" by arith+
      from R(4) s j have "R ! j = AList.update ''text'' (PStr (ts ! (j - Suc i))) (?fs ! j)"
        by blast
      with False show ?thesis unfolding e by simp
    qed
  qed
  ultimately show ?case using R(1,2) lt by simp
qed

lemma fill_sections_eq:
  "fill_sections cf fs =
     fs @ replicate (length SHIPPING_LINE_NAMES - length fs) (if fs = [] then cf else last fs)"
proof -
  have step: "length fs < 2 \<Longrightarrow> fill_sections cf fs =
        fill_sections cf (fs @ [assign_copy (if length fs > 0 then element fs (int (length fs) - 1)
                              else Some (assign_copy (Some cf)))])" for fs
    by (subst fill_sections.simps) (simp add: SHIPPING_LINE_NAMES_def)
  have stop: "\<not> length fs < 2 \<Longrightarrow> fill_sections cf fs = fs" for fs
    by (subst fill_sections.simps) (simp add: SHIPPING_LINE_NAMES_def)
  consider "fs = []" | a where "fs = [a]" | "\<not> length fs < 2"
    by (cases fs; cases "tl fs") auto
  then show ?thesis
  proof cases
    case 1
    then show ?thesis
      by (simp add: step stop assign_copy_def element_def SHIPPING_LINE_NAMES_def numeral_2_eq_2)
  next
    case 2
    then show ?thesis
      by (simp add: step stop assign_copy_def element_def SHIPPING_LINE_NAMES_def numeral_2_eq_2)
  next
    case 3
    then show ?thesis by (simp add: stop SHIPPING_LINE_NAMES_def)
  qed
qed

lemma text_of_update [simp]: "text_of (AList.update ''text'' v s) = Some v"
  by (simp add: text_of_def AList.update_conv')

lemma style_of_update [simp]: "style_of (AList.update ''text'' v s) = style_of s"
  by (simp add: style_of_def AList.delete_update_same)

lemma style_of_currentFont [simp]: "style_of (currentFont ui) = currentFont ui"
  by (simp add: style_of_def currentFont_def AList.delete_eq)

lemma replace_selected_nth:
  "length (replace_selected sel cf fs) = length fs \<and>
   (\<forall>j<length fs. replace_selected sel cf fs ! j =
        (if array_index sel = Some j then cf else fs ! j))"
  by (auto simp: replace_selected_def assign_copy_def nth_list_update split: option.splits)

lemma independent_slots:
  assumes ns: "print_type ui \<noteq> Some ''shipping''" and nsy: "\<not> sync_font_settings ui"
    and lines: "lines = split_lines (or_default (label_text ui) [])"
    and grown: "grown = (if length fs < length lines
        then add_slots (lineSelect ui) (currentFont ui) (length lines) (length fs) fs else fs)"
  shows "\<exists>R. setFontSettingsPerLine parseInt ui fs = Some R \<and> length R = length lines \<and>
     (\<forall>j<length lines. R ! j = AList.update ''text'' (PStr (lines ! j))
         (if array_index (lineSelect ui) = Some j then currentFont ui else grown ! j))"
proof -
  let ?sel = "lineSelect ui" and ?cf = "currentFont ui"
  have ne: "length lines \<noteq> 0" unfolding lines by (simp add: split_lines_nonempty)
  have gl: "length lines \<le> length grown"
  proof (cases "length fs < length lines")
    case True
    from add_slots_prefix [OF refl, of ?sel ?cf "length lines" fs]
    obtain ys where "add_slots ?sel ?cf (length lines) (length fs) fs = fs @ ys"
      "length ys = length lines - length fs" by blast
    with True show ?thesis unfolding grown by simp
  next
    case False
    then show ?thesis unfolding grown by simp
  qed
  let ?popped = "pop_slots (length lines) grown"
  let ?replaced = "replace_selected ?sel ?cf ?popped"
  have pl: "length ?popped = length lines" using gl by (simp add: pop_slots_take)
  have rl: "length ?replaced = length lines" using pl by (simp add: replace_selected_nth)
  have rn: "\<forall>j<length lines. ?replaced ! j =
        (if array_index ?sel = Some j then ?cf else grown ! j)"
    using replace_selected_nth [of ?sel ?cf ?popped] pl by (simp add: pop_slots_take)
  from set_texts_result [of 0 lines ?replaced] rl
  obtain R where R: "set_texts 0 lines ?replaced = Some R" "length R = length lines"
    "\<forall>j. j < length lines \<longrightarrow> R ! j = AList.update ''text'' (PStr (lines ! j)) (?replaced ! j)"
    by auto
  have "setFontSettingsPerLine parseInt ui fs = set_texts 0 lines ?replaced"
    using ns nsy ne unfolding setFontSettingsPerLine_def Let_def lines [symmetric] grown
    by simp
  with R rn show ?thesis by simp
qed

lemma grown_old:
  "j < length fs \<Longrightarrow>
     (if length fs < n then add_slots sel cf n (length fs) fs else fs) ! j = fs ! j"
  using add_slots_prefix [OF refl, of sel cf n fs] by (auto simp: nth_append)

lemma grown_null:
  "length fs \<le> j \<Longrightarrow> j < n \<Longrightarrow>
     (if length fs < n then add_slots PNull cf n (length fs) fs else fs) ! j = cf"
  by (simp add: add_slots_null nth_append)

lemma grown_chain:
  assumes "length fs \<le> j" "j < n" "fs \<noteq> []" "sel \<noteq> PNull"
    and "\<forall>m. length fs \<le> m \<and> m \<le> j \<longrightarrow> PNum (int m) \<noteq> sel"
  shows "(if length fs < n then add_slots sel cf n (length fs) fs else fs) ! j = last fs"
proof -
  from assms have "take (Suc j) (add_slots sel cf n (length fs) fs)
      = fs @ replicate (Suc j - length fs) (last fs)"
    by (intro add_slots_chain) auto
  then have "take (Suc j) (add_slots sel cf n (length fs) fs) ! j
      = (fs @ replicate (Suc j - length fs) (last fs)) ! j" by simp
  with assms(1,2) show ?thesis by (simp add: nth_append)
qed


lemma show_nat_0: "show_nat 0 = ''0''"
  by (subst show_nat.simps) simp

lemma add_slots_string:
  assumes "fs \<noteq> []"
  shows "add_slots (PStr s) cf n (length fs) fs = fs @ replicate (n - length fs) (last fs)"
proof (cases "length fs \<le> n")
  case True
  from add_slots_prefix [OF refl, of "PStr s" cf n fs]
  have l: "length (add_slots (PStr s) cf n (length fs) fs) = n" using True by auto
  from assms True have "take n (add_slots (PStr s) cf n (length fs) fs)
      = fs @ replicate (n - length fs) (last fs)"
    by (intro add_slots_chain) auto
  with l show ?thesis by simp
next
  case False
  then show ?thesis by (simp add: add_slots_stop)
qed

lemma show_nat_Suc0: "show_nat (Suc 0) = ''1''"
  by (subst show_nat.simps) simp

lemmas font_eval = setFontSettingsPerLine_def setShippingFontSettings_def shipping_selected_def
  example_controls_def example_parseInt_def example_style_def currentFont_def or_default_def
  DEFAULT_FONT_def SHIPPING_LINE_NAMES_def assign_copy_def element_def array_index_def
  digit_value_def replace_selected_def set_slot_def Let_def
  pop_slots_take fill_sections_eq show_nat_0 show_nat_Suc0

lemma length_set_slot: "length (set_slot i s fs) = length fs"
  by (simp add: set_slot_def)

lemma set_slot_nth:
  "j < length fs \<Longrightarrow> set_slot i s fs ! j = (if i = int j then s else fs ! j)"
  by (auto simp: set_slot_def nth_list_update)

lemma styled_nth:
  assumes "length sliced = 2" "j < 2"
  shows "length (if sync then foldl (\<lambda>a idx. set_slot (int idx) cf a) sliced [0..<2]
                 else set_slot sel cf sliced) = 2 \<and>
         (if sync then foldl (\<lambda>a idx. set_slot (int idx) cf a) sliced [0..<2]
                 else set_slot sel cf sliced) ! j
           = (if sync \<or> sel = int j then cf else sliced ! j)"
proof -
  have up: "[0..<2] = [0, Suc 0]" by (simp add: upt_rec numeral_2_eq_2)
  from assms(2) have "j = 0 \<or> j = 1" by auto
  with assms(1) show ?thesis unfolding up
    by (auto simp: length_set_slot set_slot_nth)
qed

lemma shipping_slots:
  assumes "print_type ui = Some ''shipping''"
  shows "\<exists>R. setFontSettingsPerLine parseInt ui fs = Some R \<and>
     length R = length SHIPPING_LINE_NAMES \<and>
     (\<forall>j<length SHIPPING_LINE_NAMES. R ! j =
        AList.update ''text'' (PStr (SHIPPING_LINE_NAMES ! j))
          (if sync_font_settings ui \<or> shipping_selected parseInt ui = int j then currentFont ui
           else if j < length fs then fs ! j
           else if fs = [] then currentFont ui else last fs))"
proof -
  let ?cf = "currentFont ui" and ?sel = "shipping_selected parseInt ui"
  let ?x = "if fs = [] then ?cf else last fs"
  have n2: "length SHIPPING_LINE_NAMES = 2" by (simp add: SHIPPING_LINE_NAMES_def)
  define sliced where "sliced = take 2 (fill_sections ?cf fs)"
  define styled where "styled = (if sync_font_settings ui
       then foldl (\<lambda>a idx. set_slot (int idx) ?cf a) sliced [0..<2]
       else set_slot ?sel ?cf sliced)"
  have sl: "length sliced = 2" unfolding sliced_def fill_sections_eq n2 by simp
  have sn: "sliced ! j = (if j < length fs then fs ! j else ?x)" if "j < 2" for j
    using that unfolding sliced_def fill_sections_eq n2 by (simp add: nth_append)
  have stl: "length styled = 2" unfolding styled_def using styled_nth [OF sl, of 0] by simp
  have stn: "styled ! j = (if sync_font_settings ui \<or> ?sel = int j then ?cf else sliced ! j)"
    if "j < 2" for j
    unfolding styled_def using styled_nth [OF sl that] by simp
  from set_texts_result [of 0 SHIPPING_LINE_NAMES styled] stl n2
  obtain R where R: "set_texts 0 SHIPPING_LINE_NAMES styled = Some R" "length R = 2"
    "\<forall>j. j < 2 \<longrightarrow> R ! j = AList.update ''text'' (PStr (SHIPPING_LINE_NAMES ! j)) (styled ! j)"
    by auto
  have "setFontSettingsPerLine parseInt ui fs = set_texts 0 SHIPPING_LINE_NAMES styled"
    using assms
    unfolding setFontSettingsPerLine_def setShippingFontSettings_def Let_def styled_def
      sliced_def n2
    by (simp add: assign_copy_def)
  with R stn sn show ?thesis unfolding n2 by simp
qed

lemma shipping_discards:
  "print_type ui = Some ''shipping'' \<Longrightarrow>
     setFontSettingsPerLine parseInt ui (take (length SHIPPING_LINE_NAMES) fs)
       = setFontSettingsPerLine parseInt ui fs"
proof -
  have "take (length SHIPPING_LINE_NAMES) (fill_sections cf (take (length SHIPPING_LINE_NAMES) fs))
      = take (length SHIPPING_LINE_NAMES) (fill_sections cf fs)" for cf
    unfolding fill_sections_eq by (cases "length fs \<le> length SHIPPING_LINE_NAMES") auto
  then show "print_type ui = Some ''shipping'' \<Longrightarrow> ?thesis"
    unfolding setFontSettingsPerLine_def setShippingFontSettings_def Let_def by simp
qed


lemma example_lines:
  "split_lines (or_default (label_text example_controls) []) = [''A'', ''B'', ''C'']"
  by (simp add: example_controls_def or_default_def)

lemma example_independent:
  "setFontSettingsPerLine example_parseInt example_controls [example_style]
     = Some [AList.update ''text'' (PStr ''A'') example_style,
             AList.update ''text'' (PStr ''B'') (currentFont example_controls),
             AList.update ''text'' (PStr ''C'') example_style]"
  by (simp add: font_eval add_slots_string [of "[x]" for x, simplified])

lemma example_no_selection:
  "setFontSettingsPerLine example_parseInt (example_controls\<lparr>lineSelect := PNull\<rparr>)
       [example_style]
     = Some [AList.update ''text'' (PStr ''A'') example_style,
             AList.update ''text'' (PStr ''B'') (currentFont example_controls),
             AList.update ''text'' (PStr ''C'') (currentFont example_controls)]"
  by (simp add: font_eval add_slots_null)

text \<open>
  Claim C4, as stated: a new slot copies the style of the slot before it unless it is the
  selected line or there is no slot before it. It fails when the selector has no selection:
  with one stored slot, three lines and the selector reading \<open>null\<close>, the new slots 1 and 2
  take the current style controls although slot 0 exists and neither is selected.
\<close>

theorem new_slot_without_selection_counterexample:
  "lineSelect (example_controls\<lparr>lineSelect := PNull\<rparr>) = PNull \<and>
   length [example_style] < length [''A'', ''B'', ''C''] \<and>
   setFontSettingsPerLine example_parseInt (example_controls\<lparr>lineSelect := PNull\<rparr>)
       [example_style]
     = Some [AList.update ''text'' (PStr ''A'') example_style,
             AList.update ''text'' (PStr ''B'') (currentFont example_controls),
             AList.update ''text'' (PStr ''C'') (currentFont example_controls)] \<and>
   style_of (AList.update ''text'' (PStr ''B'') (currentFont example_controls))
     \<noteq> style_of (AList.update ''text'' (PStr ''A'') example_style)"
  using example_no_selection
  by (simp add: style_of_def example_style_def currentFont_def example_controls_def
      or_default_def AList.delete_eq)

text \<open>
  Claim C4, amended. In Independent mode (not shipping, not synced) the result has one slot
  per line of the text, each with its line as text. The slot of the selected line, stored
  or new, is the current style controls. Every other stored slot keeps its stored fields,
  only its text is set; with fewer lines than slots the slots beyond the last line are
  gone. Of the new slots, all take the current style controls when the selector has no
  selection; when it has one and a slot is stored, every new slot but the selected one is
  a copy of the last stored slot.
\<close>

theorem independent_mode:
  assumes "print_type ui \<noteq> Some ''shipping''" and "\<not> sync_font_settings ui"
    and "lines = split_lines (or_default (label_text ui) [])"
  shows "\<exists>R. setFontSettingsPerLine parseInt ui fs = Some R \<and> length R = length lines \<and>
     (\<forall>j<length lines. text_of (R ! j) = Some (PStr (lines ! j))) \<and>
     (\<forall>j<length lines. array_index (lineSelect ui) = Some j \<longrightarrow>
        R ! j = AList.update ''text'' (PStr (lines ! j)) (currentFont ui)) \<and>
     (\<forall>j<length lines. j < length fs \<and> array_index (lineSelect ui) \<noteq> Some j \<longrightarrow>
        R ! j = AList.update ''text'' (PStr (lines ! j)) (fs ! j)) \<and>
     (\<forall>j<length lines. length fs \<le> j \<and> lineSelect ui = PNull \<longrightarrow>
        R ! j = AList.update ''text'' (PStr (lines ! j)) (currentFont ui)) \<and>
     (\<forall>j<length lines. length fs \<le> j \<and> fs \<noteq> [] \<and> (\<exists>s. lineSelect ui = PStr s) \<and>
          array_index (lineSelect ui) \<noteq> Some j \<longrightarrow>
        R ! j = AList.update ''text'' (PStr (lines ! j)) (last fs))"
proof -
  let ?grown = "if length fs < length lines
        then add_slots (lineSelect ui) (currentFont ui) (length lines) (length fs) fs else fs"
  from independent_slots [OF assms refl, where fs = fs and parseInt = parseInt]
  obtain R where R: "setFontSettingsPerLine parseInt ui fs = Some R" "length R = length lines"
    "\<forall>j<length lines. R ! j = AList.update ''text'' (PStr (lines ! j))
         (if array_index (lineSelect ui) = Some j then currentFont ui else ?grown ! j)"
    by blast
  have 1: "\<forall>j<length lines. text_of (R ! j) = Some (PStr (lines ! j))"
    using R(3) by simp
  have 2: "\<forall>j<length lines. array_index (lineSelect ui) = Some j \<longrightarrow>
        R ! j = AList.update ''text'' (PStr (lines ! j)) (currentFont ui)"
    using R(3) by simp
  have 3: "\<forall>j<length lines. j < length fs \<and> array_index (lineSelect ui) \<noteq> Some j \<longrightarrow>
        R ! j = AList.update ''text'' (PStr (lines ! j)) (fs ! j)"
    using R(3) by (simp add: grown_old)
  have 4: "\<forall>j<length lines. length fs \<le> j \<and> lineSelect ui = PNull \<longrightarrow>
        R ! j = AList.update ''text'' (PStr (lines ! j)) (currentFont ui)"
  proof (intro allI impI)
    fix j assume j: "j < length lines" and a: "length fs \<le> j \<and> lineSelect ui = PNull"
    then have "?grown ! j = currentFont ui" using grown_null [of fs j "length lines"] by simp
    with R(3) j show "R ! j = AList.update ''text'' (PStr (lines ! j)) (currentFont ui)"
      by simp
  qed
  have 5: "\<forall>j<length lines. length fs \<le> j \<and> fs \<noteq> [] \<and> (\<exists>s. lineSelect ui = PStr s) \<and>
          array_index (lineSelect ui) \<noteq> Some j \<longrightarrow>
        R ! j = AList.update ''text'' (PStr (lines ! j)) (last fs)"
  proof (intro allI impI)
    fix j assume j: "j < length lines"
      and a: "length fs \<le> j \<and> fs \<noteq> [] \<and> (\<exists>s. lineSelect ui = PStr s) \<and>
          array_index (lineSelect ui) \<noteq> Some j"
    then have g: "?grown ! j = last fs" by (intro grown_chain) auto
    with R(3) j a show "R ! j = AList.update ''text'' (PStr (lines ! j)) (last fs)"
      by simp
  qed
  from R(1,2) 1 2 3 4 5 show ?thesis by blast
qed

theorem independent_mode_witness:
  "print_type example_controls \<noteq> Some ''shipping'' \<and>
   \<not> sync_font_settings example_controls \<and>
   [''A'', ''B'', ''C''] = split_lines (or_default (label_text example_controls) []) \<and>
   array_index (lineSelect example_controls) = Some 1 \<and>
   (\<exists>R. setFontSettingsPerLine example_parseInt example_controls [example_style] = Some R \<and>
        R ! 0 = AList.update ''text'' (PStr ''A'') example_style \<and>
        R ! 1 = AList.update ''text'' (PStr ''B'') (currentFont example_controls) \<and>
        R ! 2 = AList.update ''text'' (PStr ''C'') example_style) \<and>
   (\<exists>R. setFontSettingsPerLine example_parseInt (example_controls\<lparr>lineSelect := PNull\<rparr>)
          [example_style] = Some R \<and>
        R ! 2 = AList.update ''text'' (PStr ''C'') (currentFont example_controls))"
proof -
  have h: "print_type example_controls \<noteq> Some ''shipping''"
    "\<not> sync_font_settings example_controls"
    "[''A'', ''B'', ''C''] = split_lines (or_default (label_text example_controls) [])"
    by (simp_all add: example_controls_def or_default_def)
  have h': "print_type (example_controls\<lparr>lineSelect := PNull\<rparr>) \<noteq> Some ''shipping''"
    "\<not> sync_font_settings (example_controls\<lparr>lineSelect := PNull\<rparr>)"
    "[''A'', ''B'', ''C'']
       = split_lines (or_default (label_text (example_controls\<lparr>lineSelect := PNull\<rparr>)) [])"
    by (simp_all add: example_controls_def or_default_def)
  have a: "array_index (lineSelect example_controls) = Some 1"
    by (simp add: example_controls_def array_index_def digit_value_def show_nat_Suc0)
  have cf: "currentFont (example_controls\<lparr>lineSelect := PNull\<rparr>) = currentFont example_controls"
    by (simp add: currentFont_def)
  from independent_mode [OF h, of example_parseInt "[example_style]"]
  obtain R where R: "setFontSettingsPerLine example_parseInt example_controls [example_style] = Some R"
    "\<forall>j<3. array_index (lineSelect example_controls) = Some j \<longrightarrow>
        R ! j = AList.update ''text'' (PStr ([''A'', ''B'', ''C''] ! j)) (currentFont example_controls)"
    "\<forall>j<3. j < length [example_style] \<and> array_index (lineSelect example_controls) \<noteq> Some j \<longrightarrow>
        R ! j = AList.update ''text'' (PStr ([''A'', ''B'', ''C''] ! j)) ([example_style] ! j)"
    "\<forall>j<3. length [example_style] \<le> j \<and> [example_style] \<noteq> [] \<and>
          (\<exists>s. lineSelect example_controls = PStr s) \<and>
          array_index (lineSelect example_controls) \<noteq> Some j \<longrightarrow>
        R ! j = AList.update ''text'' (PStr ([''A'', ''B'', ''C''] ! j)) (last [example_style])"
    by auto
  have s: "\<exists>s. lineSelect example_controls = PStr s" by (simp add: example_controls_def)
  from R(2) a have 1: "R ! 1 = AList.update ''text'' (PStr ''B'') (currentFont example_controls)"
    by simp
  from R(3) a have 0: "R ! 0 = AList.update ''text'' (PStr ''A'') example_style"
    by simp
  from R(4) a s have 2: "R ! 2 = AList.update ''text'' (PStr ''C'') example_style"
    by simp
  from independent_mode [OF h', of example_parseInt "[example_style]"]
  obtain R' where R': "setFontSettingsPerLine example_parseInt
        (example_controls\<lparr>lineSelect := PNull\<rparr>) [example_style] = Some R'"
    "\<forall>j<3. length [example_style] \<le> j \<and> lineSelect (example_controls\<lparr>lineSelect := PNull\<rparr>) = PNull \<longrightarrow>
        R' ! j = AList.update ''text'' (PStr ([''A'', ''B'', ''C''] ! j))
                   (currentFont (example_controls\<lparr>lineSelect := PNull\<rparr>))"
    by auto
  from R'(2) have 3: "R' ! 2 = AList.update ''text'' (PStr ''C'') (currentFont example_controls)"
    by (simp add: cf)
  from h a R(1) 0 1 2 R'(1) 3 show ?thesis by blast
qed

text \<open>
  Claim C8: in Synced mode (syncing on, not shipping) the result has one slot per line of
  the text, and every slot is the current style controls with the line as its text,
  whatever was stored; so with three stored slots and three lines all three slots carry
  the current style.
\<close>

theorem synced_mode:
  assumes "print_type ui \<noteq> Some ''shipping''" and "sync_font_settings ui"
    and "lines = split_lines (or_default (label_text ui) [])"
  shows "\<exists>R. setFontSettingsPerLine parseInt ui fs = Some R \<and> length R = length lines \<and>
     (\<forall>j<length lines. style_of (R ! j) = currentFont ui \<and>
                         text_of (R ! j) = Some (PStr (lines ! j)))"
proof -
  have ne: "length lines \<noteq> 0" unfolding assms(3) by (simp add: split_lines_nonempty)
  have "setFontSettingsPerLine parseInt ui fs
      = Some (map (\<lambda>l. AList.update ''text'' (PStr l) (currentFont ui)) lines)"
    using assms(1,2) ne unfolding setFontSettingsPerLine_def Let_def assms(3) [symmetric]
    by (simp add: assign_copy_def)
  then show ?thesis by simp
qed

theorem synced_mode_witness:
  "print_type (example_controls\<lparr>sync_font_settings := True\<rparr>) \<noteq> Some ''shipping'' \<and>
   sync_font_settings (example_controls\<lparr>sync_font_settings := True\<rparr>) \<and>
   [''A'', ''B'', ''C'']
     = split_lines (or_default (label_text (example_controls\<lparr>sync_font_settings := True\<rparr>)) []) \<and>
   (\<exists>R. setFontSettingsPerLine example_parseInt (example_controls\<lparr>sync_font_settings := True\<rparr>)
          [example_style, example_style, example_style] = Some R \<and>
        length R = 3 \<and>
        style_of (R ! 0) = currentFont example_controls \<and>
        style_of (R ! 1) = currentFont example_controls \<and>
        style_of (R ! 2) = currentFont example_controls \<and>
        text_of (R ! 2) = Some (PStr ''C''))"
proof -
  have h: "print_type (example_controls\<lparr>sync_font_settings := True\<rparr>) \<noteq> Some ''shipping''"
    "sync_font_settings (example_controls\<lparr>sync_font_settings := True\<rparr>)"
    "[''A'', ''B'', ''C'']
     = split_lines (or_default (label_text (example_controls\<lparr>sync_font_settings := True\<rparr>)) [])"
    by (simp_all add: example_controls_def or_default_def)
  have cf: "currentFont (example_controls\<lparr>sync_font_settings := True\<rparr>)
      = currentFont example_controls"
    by (simp add: currentFont_def)
  from synced_mode [OF h, of example_parseInt "[example_style, example_style, example_style]"]
  obtain R where R: "setFontSettingsPerLine example_parseInt
        (example_controls\<lparr>sync_font_settings := True\<rparr>)
        [example_style, example_style, example_style] = Some R" "length R = 3"
    "\<forall>j<3. style_of (R ! j) = currentFont example_controls \<and>
            text_of (R ! j) = Some (PStr ([''A'', ''B'', ''C''] ! j))"
    by (auto simp: cf)
  from R(3) have "style_of (R ! 0) = currentFont example_controls"
    "style_of (R ! 1) = currentFont example_controls"
    "style_of (R ! 2) = currentFont example_controls"
    "text_of (R ! 2) = Some (PStr ''C'')" by simp_all
  with h R(1,2) show ?thesis by blast
qed

text \<open>
  Claim C9: in shipping mode the result has exactly two slots, whatever was stored and
  whatever the text; slot \<open>j\<close> has the \<open>j\<close>-th section name as its text; stored slots
  beyond the second play no part; a slot that is missing is filled with a copy of the last
  stored slot, or with the current style controls when nothing is stored. As in the other
  modes the slot of the selected section, or every slot when syncing is on, is then set to
  the current style controls.
\<close>

theorem shipping_mode:
  assumes "print_type ui = Some ''shipping''"
  shows "\<exists>R. setFontSettingsPerLine parseInt ui fs = Some R \<and>
     length SHIPPING_LINE_NAMES = 2 \<and> length R = 2 \<and>
     (\<forall>j<2. text_of (R ! j) = Some (PStr (SHIPPING_LINE_NAMES ! j))) \<and>
     (\<forall>j<2. \<not> sync_font_settings ui \<and> shipping_selected parseInt ui \<noteq> int j \<longrightarrow>
        R ! j = AList.update ''text'' (PStr (SHIPPING_LINE_NAMES ! j))
                  (if j < length fs then fs ! j
                   else if fs = [] then currentFont ui else last fs)) \<and>
     (\<forall>j<2. sync_font_settings ui \<or> shipping_selected parseInt ui = int j \<longrightarrow>
        R ! j = AList.update ''text'' (PStr (SHIPPING_LINE_NAMES ! j)) (currentFont ui)) \<and>
     setFontSettingsPerLine parseInt ui (take 2 fs) = Some R \<and>
     fill_sections (currentFont ui) fs
       = fs @ replicate (2 - length fs) (if fs = [] then currentFont ui else last fs)"
proof -
  have n2: "length SHIPPING_LINE_NAMES = 2" by (simp add: SHIPPING_LINE_NAMES_def)
  from shipping_slots [OF assms, of parseInt fs]
  obtain R where R: "setFontSettingsPerLine parseInt ui fs = Some R" "length R = 2"
    "\<forall>j<2. R ! j =
        AList.update ''text'' (PStr (SHIPPING_LINE_NAMES ! j))
          (if sync_font_settings ui \<or> shipping_selected parseInt ui = int j then currentFont ui
           else if j < length fs then fs ! j
           else if fs = [] then currentFont ui else last fs)"
    unfolding n2 by blast
  have 1: "\<forall>j<2. text_of (R ! j) = Some (PStr (SHIPPING_LINE_NAMES ! j))"
    using R(3) by simp
  have 2: "\<forall>j<2. \<not> sync_font_settings ui \<and> shipping_selected parseInt ui \<noteq> int j \<longrightarrow>
        R ! j = AList.update ''text'' (PStr (SHIPPING_LINE_NAMES ! j))
                  (if j < length fs then fs ! j
                   else if fs = [] then currentFont ui else last fs)"
    using R(3) by simp
  have 3: "\<forall>j<2. sync_font_settings ui \<or> shipping_selected parseInt ui = int j \<longrightarrow>
        R ! j = AList.update ''text'' (PStr (SHIPPING_LINE_NAMES ! j)) (currentFont ui)"
    using R(3) by simp
  have 4: "setFontSettingsPerLine parseInt ui (take 2 fs) = Some R"
    using shipping_discards [OF assms, of parseInt fs] R(1) unfolding n2 by simp
  have 5: "fill_sections (currentFont ui) fs
       = fs @ replicate (2 - length fs) (if fs = [] then currentFont ui else last fs)"
    unfolding fill_sections_eq n2 ..
  from R(1,2) n2 1 2 3 4 5 show ?thesis by blast
qed

theorem shipping_mode_witness:
  "print_type (example_controls\<lparr>print_type := Some ''shipping''\<rparr>) = Some ''shipping'' \<and>
   \<not> sync_font_settings (example_controls\<lparr>print_type := Some ''shipping''\<rparr>) \<and>
   shipping_selected example_parseInt (example_controls\<lparr>print_type := Some ''shipping''\<rparr>) = 1 \<and>
   (\<exists>R. setFontSettingsPerLine example_parseInt
          (example_controls\<lparr>print_type := Some ''shipping''\<rparr>)
          [example_style, example_style, example_style] = Some R \<and>
        R = [AList.update ''text'' (PStr ''Sender section'') example_style,
             AList.update ''text'' (PStr ''Recipient section'') (currentFont example_controls)])"
proof -
  let ?ui = "example_controls\<lparr>print_type := Some ''shipping''\<rparr>"
  have h: "print_type ?ui = Some ''shipping''" by simp
  have s: "\<not> sync_font_settings ?ui" by (simp add: example_controls_def)
  have sel: "shipping_selected example_parseInt ?ui = 1"
    by (simp add: shipping_selected_def example_parseInt_def example_controls_def
        digit_value_def SHIPPING_LINE_NAMES_def)
  have cf: "currentFont ?ui = currentFont example_controls" by (simp add: currentFont_def)
  from shipping_mode [OF h, of example_parseInt "[example_style, example_style, example_style]"]
  obtain R where R: "setFontSettingsPerLine example_parseInt ?ui
        [example_style, example_style, example_style] = Some R" "length R = 2"
    "\<forall>j<2. \<not> sync_font_settings ?ui \<and> shipping_selected example_parseInt ?ui \<noteq> int j \<longrightarrow>
        R ! j = AList.update ''text'' (PStr (SHIPPING_LINE_NAMES ! j))
                  (if j < length [example_style, example_style, example_style]
                   then [example_style, example_style, example_style] ! j
                   else if [example_style, example_style, example_style] = []
                        then currentFont ?ui else last [example_style, example_style, example_style])"
    "\<forall>j<2. sync_font_settings ?ui \<or> shipping_selected example_parseInt ?ui = int j \<longrightarrow>
        R ! j = AList.update ''text'' (PStr (SHIPPING_LINE_NAMES ! j)) (currentFont ?ui)"
    by blast
  from R(3) [rule_format, of 0] s sel
  have 0: "R ! 0 = AList.update ''text'' (PStr ''Sender section'') example_style"
    by (simp add: SHIPPING_LINE_NAMES_def)
  from R(4) [rule_format, of 1] sel have 1: "R ! 1
      = AList.update ''text'' (PStr ''Recipient section'') (currentFont example_controls)"
    by (simp add: SHIPPING_LINE_NAMES_def cf)
  from R(2) obtain a b where ab: "R = [a, b]"
    by (cases R; cases "tl R") (auto simp: numeral_2_eq_2)
  with 0 1 have "R = [AList.update ''text'' (PStr ''Sender section'') example_style,
             AList.update ''text'' (PStr ''Recipient section'') (currentFont example_controls)]"
    by simp
  with h s sel R(1) show ?thesis by blast
qed

subsection \<open>The multiplier of the hash is prime\<close>

lemma powmod_eq: "powmod a e m = a ^ e mod m"
proof (induction a e m rule: powmod.induct)
  case (1 a e m)
  show ?case
  proof (cases "e = 0")
    case True
    then show ?thesis by (subst powmod.simps) simp
  next
    case False
    have "a ^ (2 * (e div 2)) = a ^ (e div 2) * a ^ (e div 2)"
      by (simp add: mult_2 power_add)
    then have sq: "sqmod (a ^ (e div 2) mod m) m = a ^ (2 * (e div 2)) mod m"
      by (simp add: sqmod_def mod_mult_eq)
    show ?thesis
    proof (cases "even e")
      case True
      then have "2 * (e div 2) = e" by simp
      moreover from False True have "powmod a (e div 2) m = a ^ (e div 2) mod m"
        by (rule "1.IH"(1))
      ultimately show ?thesis using False True sq
        by (subst powmod.simps) simp
    next
      case odd: False
      then have e: "e = Suc (2 * (e div 2))" by simp
      have "a ^ e = a ^ (2 * (e div 2)) * a" by (subst e) simp
      then have "a ^ (2 * (e div 2)) mod m * a mod m = a ^ e mod m"
        by (simp add: mod_mult_left_eq)
      moreover from False odd have "powmod a (e div 2) m = a ^ (e div 2) mod m"
        by (rule "1.IH"(2))
      ultimately show ?thesis using False odd sq
        by (subst powmod.simps) simp
    qed
  qed
qed

lemma prime_dvd_mult:
  assumes "is_prime p" "p dvd a * b"
  shows "p dvd a \<or> p dvd b"
proof (cases "p dvd a")
  case False
  have "gcd p a dvd p" by simp
  with assms(1) have "gcd p a = 1 \<or> gcd p a = p" by (simp add: is_prime_def)
  moreover have "gcd p a \<noteq> p" using False by (metis gcd_dvd2)
  ultimately have "coprime p a" by (simp add: coprime_iff_gcd_eq_1)
  with assms(2) show ?thesis by (simp add: coprime_dvd_mult_right_iff)
qed simp

lemma prime_dvd_choose:
  assumes "is_prime p" "0 < k" "k < p"
  shows "p dvd (p choose k)"
proof -
  have "p dvd k * (p choose k)"
    using times_binomial_minus1_eq [OF assms(2), of p] by simp
  then have "p dvd k \<or> p dvd (p choose k)" by (rule prime_dvd_mult [OF assms(1)])
  moreover have "\<not> p dvd k" using assms(2,3) by (auto dest: dvd_imp_le)
  ultimately show ?thesis by simp
qed

lemma fermat_step:
  assumes "is_prime p"
  shows "(a + 1) ^ p mod p = (a ^ p + 1) mod p"
proof -
  from assms have p: "0 < p" by (simp add: is_prime_def)
  let ?f = "\<lambda>k. (p choose k) * a ^ k"
  have "(a + 1) ^ p = (\<Sum>k\<le>p. ?f k)"
    using binomial_ring [of a 1 p] by simp
  also have "{..p} = insert 0 (insert p {0<..<p})" using p by auto
  also have "(\<Sum>k\<in>insert 0 (insert p {0<..<p}). ?f k) = ?f 0 + (?f p + (\<Sum>k\<in>{0<..<p}. ?f k))"
    using p by simp
  finally have e: "(a + 1) ^ p = (a ^ p + 1) + (\<Sum>k\<in>{0<..<p}. ?f k)" by simp
  have "p dvd (\<Sum>k\<in>{0<..<p}. ?f k)"
    by (rule dvd_sum) (auto intro: dvd_mult2 prime_dvd_choose [OF assms])
  then show ?thesis unfolding e by (metis mod_add_self2 dvd_def mod_mult_self2)
qed

lemma fermat_power: "is_prime p \<Longrightarrow> a ^ p mod p = a mod p"
proof (induction a)
  case 0
  then have "0 < p" by (simp add: is_prime_def)
  then show ?case by (simp add: power_0_left)
next
  case (Suc a)
  have "Suc a ^ p mod p = Suc (a ^ p) mod p"
    using fermat_step [OF Suc.prems, of a] by simp
  also have "\<dots> = Suc (a ^ p mod p) mod p" by (simp add: mod_Suc_eq)
  also have "\<dots> = Suc (a mod p) mod p" using Suc by simp
  also have "\<dots> = Suc a mod p" by (simp add: mod_Suc_eq)
  finally show ?case by simp
qed

lemma fermat_little:
  assumes "is_prime p" "\<not> p dvd a"
  shows "a ^ (p - 1) mod p = 1"
proof -
  from assms(1) have p: "1 < p" by (simp add: is_prime_def)
  have a: "0 < a" using assms(2) by (cases a) simp_all
  with p have "a \<le> a ^ p" by (intro self_le_power) simp_all
  moreover have "a ^ p mod p = a mod p" by (rule fermat_power [OF assms(1)])
  ultimately have "p dvd a ^ p - a" by (simp add: mod_eq_dvd_iff_nat)
  moreover have "a ^ p - a = a * (a ^ (p - 1) - 1)"
    using p by (cases p) (simp_all add: algebra_simps)
  ultimately have "p dvd a \<or> p dvd a ^ (p - 1) - 1"
    using prime_dvd_mult [OF assms(1)] by simp
  with assms(2) have d: "p dvd a ^ (p - 1) - 1" by simp
  from a have "1 \<le> a ^ (p - 1)" by simp
  with d have "a ^ (p - 1) mod p = 1 mod p"
    using mod_eq_dvd_iff_nat [of 1 "a ^ (p - 1)" p] by blast
  with p show ?thesis by simp
qed

lemma power_one_mod:
  fixes a p :: nat
  assumes "1 < p" "a ^ m mod p = 1"
  shows "a ^ (m * x) mod p = 1"
proof -
  have "a ^ (m * x) mod p = (a ^ m mod p) ^ x mod p" by (simp add: power_mult power_mod)
  with assms show ?thesis by simp
qed

lemma power_gcd_mod:
  fixes a p :: nat
  assumes p: "1 < p" and m: "a ^ m mod p = 1" and n: "a ^ n mod p = 1" and m0: "m \<noteq> 0"
  shows "a ^ gcd m n mod p = 1"
proof -
  from bezout_nat [OF m0, of n] obtain x y where xy: "m * x = n * y + gcd m n" by blast
  have "a ^ (m * x) mod p = (a ^ (n * y) mod p) * (a ^ gcd m n mod p) mod p"
    unfolding xy by (simp add: power_add mod_mult_eq)
  with power_one_mod [OF p m, of x] power_one_mod [OF p n, of y] p show ?thesis by simp
qed

text \<open>The step of Pocklington's criterion, for one prime factor q of N - 1.\<close>

lemma pocklington_step:
  fixes a :: nat
  assumes pr: "is_prime p" and pN: "p dvd N" and q: "is_prime q" and N: "N = Suc (q * M)"
    and one: "a ^ (q * M) mod N = 1" and r: "coprime (a ^ M mod N - 1) N"
  shows "q dvd p - 1"
proof (rule ccontr)
  assume nq: "\<not> q dvd p - 1"
  from pr have p: "1 < p" by (simp add: is_prime_def)
  from q have q1: "1 < q" by (simp add: is_prime_def)
  have qM: "q * M \<noteq> 0" using one p pN N by (cases "q * M = 0") auto
  have 1: "a ^ (q * M) mod p = 1"
    using one p mod_mod_cancel [OF pN, of "a ^ (q * M)"] by simp
  have npa: "\<not> p dvd a"
  proof
    assume "p dvd a"
    moreover have "a dvd a ^ (q * M)" using qM by (intro dvd_power) simp
    ultimately have "p dvd a ^ (q * M)" by (rule dvd_trans)
    with 1 show False by (simp add: dvd_eq_mod_eq_0)
  qed
  have 2: "a ^ (p - 1) mod p = 1" by (rule fermat_little [OF pr npa])
  have g: "a ^ gcd (q * M) (p - 1) mod p = 1" by (rule power_gcd_mod [OF p 1 2 qM])
  have "gcd q (p - 1) dvd q" by simp
  with q have "gcd q (p - 1) = 1 \<or> gcd q (p - 1) = q" by (simp add: is_prime_def)
  moreover have "gcd q (p - 1) \<noteq> q" using nq by (metis gcd_dvd2)
  ultimately have "coprime q (p - 1)" by (simp add: coprime_iff_gcd_eq_1)
  then have "coprime (p - 1) q" by (simp add: coprime_commute)
  then have "gcd (q * M) (p - 1) = gcd M (p - 1)"
    by (rule gcd_mult_left_left_cancel)
  then have "gcd (q * M) (p - 1) dvd M" by simp
  then obtain c where c: "M = gcd (q * M) (p - 1) * c" by (auto simp: dvd_def)
  have 3: "a ^ M mod p = 1" by (subst c) (rule power_one_mod [OF p g])
  have "(a ^ M mod N) mod p = 1" using 3 mod_mod_cancel [OF pN, of "a ^ M"] by simp
  then have "p dvd a ^ M mod N - 1"
    by (metis One_nat_def dvd_minus_mod)
  with pN r have "p dvd 1" by (metis coprime_def is_unit_gcd_iff gcd_greatest coprime_iff_gcd_eq_1)
  with p show False by simp
qed

lemma least_prime_factor:
  assumes "1 < d" "d < n" "d dvd n"
  shows "\<exists>p. is_prime p \<and> p dvd n \<and> p * p \<le> n"
proof -
  define p where "p = (LEAST k. 1 < k \<and> k dvd n)"
  have ex: "1 < d \<and> d dvd n" using assms by simp
  have p: "1 < p \<and> p dvd n" unfolding p_def by (rule LeastI [of _ d]) (rule ex)
  have least: "\<And>k. 1 < k \<Longrightarrow> k dvd n \<Longrightarrow> p \<le> k" unfolding p_def by (simp add: Least_le)
  have prime: "is_prime p" unfolding is_prime_def
  proof (intro conjI allI impI)
    show "1 < p" using p by simp
    fix k assume k: "k dvd p"
    show "k = 1 \<or> k = p"
    proof (cases "k = 1")
      case False
      from k p have "0 < k" by (intro dvd_pos_nat [of p k]) simp_all
      with False have "1 < k" by simp
      moreover from k p have "k dvd n" by (auto intro: dvd_trans)
      ultimately have "p \<le> k" by (rule least)
      moreover from k p have "k \<le> p" by (auto intro: dvd_imp_le)
      ultimately show ?thesis by simp
    qed simp
  qed
  from p obtain c where c: "n = p * c" by (auto simp: dvd_def)
  have "p \<le> d" using assms by (intro least) simp_all
  with assms(2) c p have c1: "1 < c" by (cases c; cases "c - 1") auto
  have "c dvd n" using c by simp
  with c1 have "p \<le> c" by (intro least)
  then have "p * p \<le> n" unfolding c by simp
  with prime p show ?thesis by blast
qed

lemma prime_by_trial:
  assumes "1 < n" and "\<And>d. 1 < d \<Longrightarrow> d * d \<le> n \<Longrightarrow> \<not> d dvd n"
  shows "is_prime n"
  unfolding is_prime_def
proof (intro conjI allI impI)
  show "1 < n" by fact
  fix d assume d: "d dvd n"
  show "d = 1 \<or> d = n"
  proof (rule ccontr)
    assume "\<not> (d = 1 \<or> d = n)"
    then have ne: "d \<noteq> 1" "d \<noteq> n" by simp_all
    from d assms(1) have "0 < d" by (intro dvd_pos_nat [of n d]) simp_all
    with ne(1) have "1 < d" by simp
    moreover from d assms(1) have "d \<le> n" by (intro dvd_imp_le) simp_all
    with ne(2) have "d < n" by simp
    ultimately have "1 < d" "d < n" by simp_all
    from least_prime_factor [OF this d] obtain p where "is_prime p" "p dvd n" "p * p \<le> n"
      by blast
    with assms(2) [of p] show False by (simp add: is_prime_def)
  qed
qed

lemma powmod_numeral:
  "powmod a (numeral k) m =
     (if even (numeral k :: nat) then sqmod (powmod a (numeral k div 2) m) m
      else sqmod (powmod a (numeral k div 2) m) m * a mod m)"
  by (subst powmod.simps) simp

lemma powmod_0: "powmod a 0 m = 1 mod m"
  by (subst powmod.simps) simp

lemma powmod_1: "powmod a 1 m = a mod m"
  by (subst powmod.simps) (simp add: powmod_0 sqmod_def mod_mult_left_eq)

lemma powmod_Suc0: "powmod a (Suc 0) m = a mod m"
  using powmod_1 [of a m] by simp

lemmas powmod_eval = powmod_numeral powmod_0 powmod_1 powmod_Suc0 sqmod_def

lemma pm1: "powmod 2 1099511628210 1099511628211 = 1"
  by (simp add: powmod_eval)

lemma pm2: "powmod 2 4132710 1099511628211 = 197652113425"
  by (simp add: powmod_eval)

lemma gcd_numeral_step:
  "gcd (numeral m :: nat) (numeral n) = gcd (numeral n) (numeral m mod numeral n)"
  by (rule gcd_red_nat)

lemma cop: "coprime (197652113424 :: nat) 1099511628211"
  by (simp add: coprime_iff_gcd_eq_1 gcd_numeral_step)

lemma trial_q: "\<forall>d \<in> set [2..<516]. \<not> d dvd (266051 :: nat)"
  by (simp add: upt_rec_numeral dvd_eq_mod_eq_0)

lemma prime_266051: "is_prime 266051"
proof (rule prime_by_trial)
  show "1 < (266051::nat)" by simp
  fix d :: nat assume d: "1 < d" "d * d \<le> 266051"
  have "d < 516"
  proof (rule ccontr)
    assume "\<not> d < 516"
    then have "516 * 516 \<le> d * d" by (intro mult_le_mono) simp_all
    with d(2) show False by simp
  qed
  with d(1) have "d \<in> {2..<516}" by simp
  with trial_q [unfolded set_upt] show "\<not> d dvd 266051" by blast
qed

lemma pocklington_powmod:
  assumes "is_prime p" "p dvd N" "is_prime q" "E = q * M" "N = Suc E"
    and "powmod a E N = 1" "coprime (powmod a M N - 1) N"
  shows "q dvd p - 1"
proof (rule pocklington_step [OF assms(1,2,3)])
  show "N = Suc (q * M)" using assms(4,5) by simp
  show "a ^ (q * M) mod N = 1" using assms(6) unfolding powmod_eq assms(4) .
  show "coprime (a ^ M mod N - 1) N" using assms(7) unfolding powmod_eq .
qed

lemma FNV_PRIME_is_prime: "is_prime FNV_PRIME"
proof (rule prime_by_trial)
  show "1 < FNV_PRIME" by (simp add: FNV_PRIME_def)
  fix d assume d: "1 < d" "d * d \<le> FNV_PRIME"
  show "\<not> d dvd FNV_PRIME"
  proof
    assume dv: "d dvd FNV_PRIME"
    from d(1) have "d * 2 \<le> d * d" by (intro mult_le_mono) simp_all
    with d have dl: "d < FNV_PRIME" by linarith
    from least_prime_factor [OF d(1) dl dv]
    obtain p where p: "is_prime p" "p dvd FNV_PRIME" "p * p \<le> FNV_PRIME" by blast
    have E: "(1099511628210::nat) = 266051 * 4132710" by simp
    have N: "FNV_PRIME = Suc 1099511628210" by (simp add: FNV_PRIME_def)
    have one: "powmod 2 1099511628210 FNV_PRIME = 1"
      unfolding FNV_PRIME_def by (rule pm1)
    have r: "coprime (powmod 2 4132710 FNV_PRIME - 1) FNV_PRIME"
      unfolding FNV_PRIME_def pm2 using cop by simp
    have q: "266051 dvd p - 1"
      by (rule pocklington_powmod [OF p(1,2) prime_266051 E N one r])
    then obtain k where k: "p - 1 = 266051 * k" by (auto simp: dvd_def)
    from p(1) have p1: "1 < p" by (simp add: is_prime_def)
    have pl: "p < 1048577"
    proof (rule ccontr)
      assume "\<not> p < 1048577"
      then have "1048577 * 1048577 \<le> p * p" by (intro mult_le_mono) simp_all
      with p(3) show False by (simp add: FNV_PRIME_def)
    qed
    have "k < 4"
    proof (rule ccontr)
      assume "\<not> k < 4"
      then have "266051 * 4 \<le> 266051 * k" by (intro mult_le_mono) simp_all
      with k pl show False by simp
    qed
    moreover have "k \<noteq> 0" using k p1 by (cases k) simp_all
    ultimately have "k = 1 \<or> k = 2 \<or> k = 3" by arith
    with k p1 have "p = 266052 \<or> p = 532103 \<or> p = 798154" by auto
    with p(2) show False by (auto simp: FNV_PRIME_def dvd_eq_mod_eq_0)
  qed
qed

section \<open>The content hash, round by round\<close>

text \<open>
  Claim C6, as stated: each round multiplies the accumulator by the prime and xors it
  with the unit. Read in that order the rounds are those of \<open>spec_generateHash\<close>, and the
  code gives a different key already for the one-character string \<open>a\<close>.
\<close>

theorem generateHash_order_counterexample:
  "generateHash [97] \<noteq> spec_generateHash [97]"
  by (simp add: hash_eval spec_generateHash_def spec_hash_round_def)

text \<open>
  Claim C6, amended: the hash is a function of the string alone, a 64-bit rolling hash
  that depends on the order of the units: the accumulator starts at a fixed non-zero
  basis and each round xors it with the unit and then multiplies it by a fixed odd
  prime, in 64-bit arithmetic (the mask of the source); the final value is written in
  base 36.
\<close>

theorem generateHash_fnv1a:
  "generateHash s =
     toString36 (unat (foldl (\<lambda>h c. (h XOR ucast c) * of_nat FNV_PRIME)
                        (of_nat FNV_OFFSET_BASIS :: 64 word) s)) \<and>
   fromString36 (generateHash s) = hash_value s \<and>
   hash_value s < 2 ^ 64 \<and>
   FNV_OFFSET_BASIS \<noteq> 0 \<and> odd FNV_PRIME \<and> is_prime FNV_PRIME \<and>
   generateHash [97, 98] \<noteq> generateHash [98, 97]"
proof (intro conjI)
  show "is_prime FNV_PRIME" by (rule FNV_PRIME_is_prime)
  show "generateHash [97, 98] \<noteq> generateHash [98, 97]" by (simp add: hash_eval)
  show "generateHash s =
     toString36 (unat (foldl (\<lambda>h c. (h XOR ucast c) * of_nat FNV_PRIME)
                        (of_nat FNV_OFFSET_BASIS :: 64 word) s))"
    unfolding generateHash_def by (subst hash_value_word) (rule refl)
  show "fromString36 (generateHash s) = hash_value s"
    by (simp add: generateHash_def fromString36_toString36)
  show "hash_value s < 2 ^ 64" by (rule hash_value_less)
  show "FNV_OFFSET_BASIS \<noteq> 0" by (simp add: FNV_OFFSET_BASIS_def)
  show "odd FNV_PRIME" by (simp add: FNV_PRIME_def)
qed

theorem generateHash_fnv1a_witness:
  "generateHash [97] = ''2o0ongoiv4rrg'' \<and>
   fromString36 ''2o0ongoiv4rrg'' = hash_value [97] \<and>
   hash_value [97] = 12638187200555641996 \<and>
   1 < FNV_PRIME \<and> FNV_PRIME mod 3 \<noteq> 0"
proof -
  have v: "hash_value [97] = 12638187200555641996"
    by (simp add: hash_value_def hash_round_def FNV_PRIME_def FNV_OFFSET_BASIS_def)
  from generateHash_fnv1a [of "[97]"]
  have "fromString36 (generateHash [97]) = hash_value [97]" and p: "is_prime FNV_PRIME"
    by blast+
  then have f: "fromString36 ''2o0ongoiv4rrg'' = hash_value [97]"
    by (simp add: generateHash_a)
  from p have "1 < FNV_PRIME" by (simp add: is_prime_def)
  moreover have "FNV_PRIME mod 3 \<noteq> 0" by (simp add: FNV_PRIME_def)
  ultimately show ?thesis using f v generateHash_a by simp
qed

end
